theory Spec2Isabelle
  imports Complex_Main "HOL-Library.Sublist"
begin

section \<open>Values and time\<close>

text \<open>
  Python values that travel through the cache and come back from the upstream tool call.
  \<open>PNone\<close> is Python's \<open>None\<close>: a Python function that "returns nothing" returns
  \<open>PNone\<close>, and the source tests results with \<open>if data:\<close>, that is, by truthiness.
  \<open>PModel\<close> is an instance of a pydantic \<open>BaseModel\<close> (such as
  \<open>TopGainersResponse\<close>): it defines neither \<open>__bool__\<close> nor \<open>__len__\<close>, so it is
  always truthy, and it has a \<open>dict()\<close> method.
\<close>

datatype pyval =
    PNone
  | PBool bool
  | PInt int
  | PStr string
  | PList "pyval list"
  | PDict "(string \<times> pyval) list"
  | PModel "(string \<times> pyval) list"

fun truthy :: "pyval \<Rightarrow> bool" where
  "truthy PNone = False"
| "truthy (PBool b) = b"
| "truthy (PInt i) = (i \<noteq> 0)"
| "truthy (PStr s) = (s \<noteq> [])"
| "truthy (PList xs) = (xs \<noteq> [])"
| "truthy (PDict kvs) = (kvs \<noteq> [])"
| "truthy (PModel fs) = True"

text \<open>
  \<open>_make_serializable\<close> of \<^verbatim>\<open>chroma_cache.py\<close> (and the \<open>data.dict()\<close> of
  \<open>CacheManager.set\<close>): a model becomes the dictionary of its fields, recursively;
  lists and dictionaries are converted element by element; primitive values stay.
  \<open>json.dumps\<close> followed by \<open>json.loads\<close> gives back such a value unchanged, so the
  stored document is modelled as the serialisable value itself.
\<close>

primrec make_serializable :: "pyval \<Rightarrow> pyval" where
  "make_serializable PNone = PNone"
| "make_serializable (PBool b) = PBool b"
| "make_serializable (PInt i) = PInt i"
| "make_serializable (PStr s) = PStr s"
| "make_serializable (PList xs) = PList (map make_serializable xs)"
| "make_serializable (PDict kvs) = PDict (map (map_prod id make_serializable) kvs)"
| "make_serializable (PModel fs) = PDict (map (map_prod id make_serializable) fs)"

text \<open>
  Time is read from \<open>time.time()\<close> (seconds, a float) and \<open>datetime.utcnow()\<close>; both
  are modelled by one real-valued clock, and only differences of readings are used.
\<close>

type_synonym seconds = real

section \<open>The persistent tier: \<open>ChromaPersistentCache\<close>\<close>

text \<open>
  One stored item of the ChromaDB collection: the JSON document and the metadata fields
  \<open>endpoint\<close> and \<open>timestamp\<close> (the other metadata fields are never read back by the
  functions modelled here).
\<close>

record chroma_item =
  document :: pyval
  endpoint :: string
  timestamp :: seconds

text \<open>The messages of the module's logger, one constructor per \<open>logger\<close> call.\<close>

datatype chroma_event =
    ChromaHit string
  | ChromaExpired string
  | ChromaGetError string
  | ChromaStaleUsed string
  | ChromaRemovedOld string
  | ChromaStaleError string
  | ChromaCached string
  | ChromaSetError string

text \<open>
  \<open>collection\<close> is \<open>None\<close> when ChromaDB is not installed or could not be initialised.
  \<open>faulty\<close> is a condition of the environment: while it holds, every operation on the
  collection (\<open>get\<close>, \<open>upsert\<close>, \<open>delete\<close>) raises.
\<close>

record ChromaPersistentCache =
  collection :: "(string \<rightharpoonup> chroma_item) option"
  faulty :: bool
  chroma_log :: "chroma_event list"

text \<open>
  \<open>_generate_cache_key\<close>: the MD5 digest of \<open>endpoint:json(params)\<close>. Every call in
  \<^verbatim>\<open>main.py\<close> leaves \<open>params\<close> at \<open>None\<close>, whose JSON is \<open>{}\<close>. The digest is
  taken to be injective, so an item is identified by the digested string itself.
\<close>

definition generate_cache_key :: "string \<Rightarrow> string" where
  "generate_cache_key ep = ep @ '':{}''"

text \<open>The three collection operations; \<open>Inl\<close> is the exception they raise.\<close>

definition collection_get ::
  "ChromaPersistentCache \<Rightarrow> (string \<rightharpoonup> chroma_item) \<Rightarrow> string \<Rightarrow> string + chroma_item option" where
  "collection_get c coll k = (if faulty c then Inl ''collection.get failed'' else Inr (coll k))"

definition collection_upsert ::
  "ChromaPersistentCache \<Rightarrow> (string \<rightharpoonup> chroma_item) \<Rightarrow> string \<Rightarrow> chroma_item
     \<Rightarrow> string + (string \<rightharpoonup> chroma_item)" where
  "collection_upsert c coll k item =
     (if faulty c then Inl ''collection.upsert failed'' else Inr (coll(k \<mapsto> item)))"

definition collection_delete ::
  "ChromaPersistentCache \<Rightarrow> (string \<rightharpoonup> chroma_item) \<Rightarrow> string
     \<Rightarrow> string + (string \<rightharpoonup> chroma_item)" where
  "collection_delete c coll k =
     (if faulty c then Inl ''collection.delete failed'' else Inr (coll(k := None)))"

definition chroma_logs :: "chroma_event \<Rightarrow> ChromaPersistentCache \<Rightarrow> ChromaPersistentCache" where
  "chroma_logs e c = c\<lparr>chroma_log := chroma_log c @ [e]\<rparr>"

text \<open>\<open>ChromaPersistentCache.get(endpoint, max_age_hours)\<close>.\<close>

definition chroma_get ::
  "seconds \<Rightarrow> string \<Rightarrow> int \<Rightarrow> ChromaPersistentCache \<Rightarrow> pyval \<times> ChromaPersistentCache" where
  "chroma_get now ep max_age_hours c =
     (case collection c of
        None \<Rightarrow> (PNone, c)
      | Some coll \<Rightarrow>
          (case collection_get c coll (generate_cache_key ep) of
             Inl e \<Rightarrow> (PNone, chroma_logs (ChromaGetError ep) c)
           | Inr None \<Rightarrow> (PNone, c)
           | Inr (Some item) \<Rightarrow>
               if now - timestamp item < 3600 * real_of_int max_age_hours
               then (document item, chroma_logs (ChromaHit ep) c)
               else (PNone, chroma_logs (ChromaExpired ep) c)))"

text \<open>\<open>ChromaPersistentCache.get_stale(endpoint, max_stale_days)\<close>.\<close>

definition chroma_get_stale ::
  "seconds \<Rightarrow> string \<Rightarrow> int \<Rightarrow> ChromaPersistentCache \<Rightarrow> pyval \<times> ChromaPersistentCache" where
  "chroma_get_stale now ep max_stale_days c =
     (case collection c of
        None \<Rightarrow> (PNone, c)
      | Some coll \<Rightarrow>
          (case collection_get c coll (generate_cache_key ep) of
             Inl e \<Rightarrow> (PNone, chroma_logs (ChromaStaleError ep) c)
           | Inr None \<Rightarrow> (PNone, c)
           | Inr (Some item) \<Rightarrow>
               if now - timestamp item < 86400 * real_of_int max_stale_days
               then (document item, chroma_logs (ChromaStaleUsed ep) c)
               else
                 (case collection_delete c coll (generate_cache_key ep) of
                    Inl e \<Rightarrow> (PNone, chroma_logs (ChromaStaleError ep) c)
                  | Inr coll' \<Rightarrow>
                      (PNone, chroma_logs (ChromaRemovedOld ep) (c\<lparr>collection := Some coll'\<rparr>)))))"

text \<open>\<open>ChromaPersistentCache.set(endpoint, data)\<close>: the exception of a failed write is
  caught inside the method and logged.\<close>

definition chroma_set ::
  "seconds \<Rightarrow> string \<Rightarrow> pyval \<Rightarrow> ChromaPersistentCache \<Rightarrow> ChromaPersistentCache" where
  "chroma_set now ep data c =
     (case collection c of
        None \<Rightarrow> c
      | Some coll \<Rightarrow>
          (case collection_upsert c coll (generate_cache_key ep)
                  \<lparr>document = make_serializable data, endpoint = ep, timestamp = now\<rparr> of
             Inl e \<Rightarrow> chroma_logs (ChromaSetError ep) c
           | Inr coll' \<Rightarrow> chroma_logs (ChromaCached ep) (c\<lparr>collection := Some coll'\<rparr>)))"

section \<open>The two-tier cache: \<open>CacheManager\<close>\<close>

text \<open>The messages of the logger of \<^verbatim>\<open>main.py\<close> that the modelled functions write.\<close>

datatype cache_event =
    MemoryCacheHit string
  | MemoryCacheExpired string
  | MemoryCacheSet string int
  | StaleMemoryUsed string
  | StaleChromaUsed string
  | ChromaSetFailed string
  | FetchError string

text \<open>
  \<open>cache\<close> is the in-memory dictionary: key to \<open>(data, timestamp, ttl)\<close>.
  \<open>chroma_cache\<close> is \<open>None\<close> when the import of the persistent cache failed.
\<close>

record CacheManager =
  cache :: "string \<rightharpoonup> (pyval \<times> seconds \<times> int)"
  chroma_cache :: "ChromaPersistentCache option"
  cache_log :: "cache_event list"

definition cache_logs :: "cache_event \<Rightarrow> CacheManager \<Rightarrow> CacheManager" where
  "cache_logs e m = m\<lparr>cache_log := cache_log m @ [e]\<rparr>"

text \<open>
  \<open>CacheManager.set(key, data, ttl)\<close>. The hot tier is written first. \<open>data.dict()\<close> of
  a model is its serialisable form, and \<open>ChromaPersistentCache.set\<close> serialises again
  (which changes nothing more). The \<open>try\<close> around the persistent write has nothing left
  to catch in this model, since \<open>chroma_set\<close> catches the failed write itself; its
  handler would only log \<open>ChromaSetFailed\<close>.
\<close>

definition CacheManager_set ::
  "seconds \<Rightarrow> string \<Rightarrow> pyval \<Rightarrow> int \<Rightarrow> CacheManager \<Rightarrow> CacheManager" where
  "CacheManager_set now key data ttl m =
     (let m1 = cache_logs (MemoryCacheSet key ttl) (m\<lparr>cache := (cache m)(key \<mapsto> (data, now, ttl))\<rparr>)
      in case chroma_cache m1 of
           None \<Rightarrow> m1
         | Some c \<Rightarrow>
             if ttl > 60
             then m1\<lparr>chroma_cache := Some (chroma_set now key (make_serializable data) c)\<rparr>
             else m1)"

text \<open>\<open>CacheManager.get(key)\<close>.\<close>

definition CacheManager_get :: "seconds \<Rightarrow> string \<Rightarrow> CacheManager \<Rightarrow> pyval \<times> CacheManager" where
  "CacheManager_get now key m =
     (let fallback = (\<lambda>m1.
            case chroma_cache m1 of
              None \<Rightarrow> (PNone, m1)
            | Some c \<Rightarrow>
                (let (chroma_data, c') = chroma_get now key 1 c;
                     m2 = m1\<lparr>chroma_cache := Some c'\<rparr>
                 in if truthy chroma_data
                    then (chroma_data, CacheManager_set now key chroma_data 300 m2)
                    else (PNone, m2)))
      in case cache m key of
           Some (data, ts, ttl) \<Rightarrow>
             if now - ts < real_of_int ttl
             then (data, cache_logs (MemoryCacheHit key) m)
             else fallback (cache_logs (MemoryCacheExpired key) m)
         | None \<Rightarrow> fallback m)"

text \<open>\<open>CacheManager.get_stale(key)\<close>.\<close>

definition CacheManager_get_stale :: "seconds \<Rightarrow> string \<Rightarrow> CacheManager \<Rightarrow> pyval \<times> CacheManager" where
  "CacheManager_get_stale now key m =
     (case cache m key of
        Some (data, ts, ttl) \<Rightarrow> (data, cache_logs (StaleMemoryUsed key) m)
      | None \<Rightarrow>
          (case chroma_cache m of
             None \<Rightarrow> (PNone, m)
           | Some c \<Rightarrow>
               (let (stale_data, c') = chroma_get_stale now key 1 c;
                    m1 = m\<lparr>chroma_cache := Some c'\<rparr>
                in if truthy stale_data
                   then (stale_data, cache_logs (StaleChromaUsed key) m1)
                   else (PNone, m1))))"

section \<open>Admission control and retries: \<open>MCPManager\<close>\<close>

text \<open>
  The fields of the manager that the modelled methods read or write, and two fields of
  the environment: \<open>clock\<close>, the current reading of \<open>time.time()\<close>, and
  \<open>upstream_calls\<close>, the number of tool calls sent upstream so far. The clock moves
  only where the coroutine is suspended: in \<open>asyncio.sleep\<close> and during the upstream call.
\<close>

record MCPManager =
  request_queue :: "seconds list"
  last_request_time :: seconds
  circuit_breaker_open :: bool
  circuit_breaker_opened_at :: seconds
  clock :: seconds
  upstream_calls :: nat

definition max_requests_per_minute :: nat where
  "max_requests_per_minute = 5"

definition request_delay :: seconds where
  "request_delay = 8"

definition circuit_breaker_timeout :: seconds where
  "circuit_breaker_timeout = 300"

text \<open>\<open>MCPManager.__init__\<close>, started when the clock reads \<open>t\<close>.\<close>

definition MCPManager_init :: "seconds \<Rightarrow> MCPManager" where
  "MCPManager_init t =
     \<lparr>request_queue = [], last_request_time = 0, circuit_breaker_open = False,
      circuit_breaker_opened_at = 0, clock = t, upstream_calls = 0\<rparr>"

text \<open>\<open>await asyncio.sleep(w)\<close>: a delay that is not positive returns at once.\<close>

definition sleep :: "seconds \<Rightarrow> MCPManager \<Rightarrow> MCPManager" where
  "sleep w s = s\<lparr>clock := clock s + max 0 w\<rparr>"

text \<open>
  \<open>_wait_for_rate_limit\<close>. \<open>now\<close> is read once, before the waits, and is used again
  for the spacing test after the first wait, as in the source. The two readings of the
  clock at the end are taken without suspension in between, hence equal.
\<close>

definition wait_for_rate_limit :: "MCPManager \<Rightarrow> MCPManager" where
  "wait_for_rate_limit s =
     (let now = clock s;
          s1 = s\<lparr>request_queue := filter (\<lambda>t. now - t < 60) (request_queue s)\<rparr>;
          s2 = (if length (request_queue s1) \<ge> max_requests_per_minute
                then (let wait_time = 60 - (now - hd (request_queue s1)) + 10
                      in if wait_time > 0 then sleep wait_time s1 else s1)
                else s1);
          time_since_last = now - last_request_time s2;
          s3 = (if time_since_last < request_delay
                then sleep (request_delay - time_since_last) s2
                else s2)
      in s3\<lparr>request_queue := request_queue s3 @ [clock s3], last_request_time := clock s3\<rparr>)"

text \<open>\<open>_check_circuit_breaker\<close>: the returned flag and the manager after the check.\<close>

definition check_circuit_breaker :: "MCPManager \<Rightarrow> bool \<times> MCPManager" where
  "check_circuit_breaker s =
     (let current_time = clock s
      in if circuit_breaker_open s
         then (if current_time - circuit_breaker_opened_at s > circuit_breaker_timeout
               then (False, s\<lparr>circuit_breaker_open := False\<rparr>)
               else (True, s))
         else (False, s))"

definition open_circuit_breaker :: "MCPManager \<Rightarrow> MCPManager" where
  "open_circuit_breaker s = s\<lparr>circuit_breaker_open := True, circuit_breaker_opened_at := clock s\<rparr>"

subsection \<open>Classification of a failed attempt\<close>

text \<open>
  Python's \<open>sub in s\<close> on strings, and \<open>str.lower\<close> (on the ASCII letters; the markers
  searched for are ASCII).
\<close>

definition contains :: "string \<Rightarrow> string \<Rightarrow> bool" where
  "contains sub s = sublist sub s"

definition lower_char :: "char \<Rightarrow> char" where
  "lower_char c =
     (let n = (of_char c :: nat) in if 65 \<le> n \<and> n \<le> 90 then char_of (n + 32) else c)"

definition lower :: "string \<Rightarrow> string" where
  "lower s = map lower_char s"

datatype failure_kind = RateLimited | Transient | Permanent

text \<open>The \<open>if\<close>/\<open>elif\<close>/\<open>else\<close> of the exception handler, on \<open>str(e)\<close>.\<close>

definition classify :: "string \<Rightarrow> failure_kind" where
  "classify error_msg =
     (if contains ''429'' error_msg \<or> contains ''Too Many Requests'' error_msg then RateLimited
      else if contains ''timeout'' (lower error_msg) \<or> contains ''connection'' (lower error_msg)
      then Transient
      else Permanent)"

subsection \<open>The retry loop\<close>

text \<open>
  The upstream source is a function of the environment: the \<open>n\<close>-th tool call takes
  \<open>duration\<close> seconds and either raises an exception with the message \<open>Inl msg\<close>
  (anything raised while the session is opened, the tool is called and the answer is
  parsed) or yields the parsed JSON value \<open>Inr data\<close>.
\<close>

record outcome =
  duration :: seconds
  result :: "string + pyval"

datatype loop_control = Return pyval | Continue

text \<open>
  The body of \<open>except Exception as e\<close> for the 0-based \<open>attempt\<close>: what the loop does
  next, the new value of \<open>consecutive_429s\<close>, and the manager after the backoff.
  An other error on the last attempt sleeps nothing and falls out of the loop.
\<close>

definition on_failure ::
  "nat \<Rightarrow> nat \<Rightarrow> nat \<Rightarrow> string \<Rightarrow> MCPManager \<Rightarrow> loop_control \<times> nat \<times> MCPManager" where
  "on_failure attempt max_retries consecutive_429s error_msg s =
     (case classify error_msg of
        RateLimited \<Rightarrow>
          (let c = consecutive_429s + 1
           in if c \<ge> 2 then (Return PNone, c, open_circuit_breaker s)
              else (Continue, c, sleep (2 ^ attempt * 20) s))
      | Transient \<Rightarrow> (Continue, consecutive_429s, sleep ((real attempt + 1) * 5) s)
      | Permanent \<Rightarrow>
          (if int attempt < int max_retries - 1
           then (Continue, consecutive_429s, sleep 3 s)
           else (Continue, consecutive_429s, s)))"

text \<open>The \<open>try\<close> body: wait for a slot, then one tool call upstream.\<close>

definition try_call :: "(nat \<Rightarrow> outcome) \<Rightarrow> MCPManager \<Rightarrow> (string + pyval) \<times> MCPManager" where
  "try_call up s =
     (let s1 = wait_for_rate_limit s;
          out = up (upstream_calls s1)
      in (result out,
          s1\<lparr>clock := clock s1 + duration out, upstream_calls := Suc (upstream_calls s1)\<rparr>))"

text \<open>
  \<open>for attempt in range(max_retries)\<close>: the third argument counts the iterations that
  are left. When none is left the method returns \<open>None\<close>.
\<close>

fun attempts ::
  "(nat \<Rightarrow> outcome) \<Rightarrow> nat \<Rightarrow> nat \<Rightarrow> nat \<Rightarrow> nat \<Rightarrow> MCPManager \<Rightarrow> pyval \<times> MCPManager" where
  "attempts up max_retries 0 attempt consecutive_429s s = (PNone, s)"
| "attempts up max_retries (Suc k) attempt consecutive_429s s =
     (case try_call up s of
        (Inr data, s1) \<Rightarrow>
          (data, if circuit_breaker_open s1 then s1\<lparr>circuit_breaker_open := False\<rparr> else s1)
      | (Inl error_msg, s1) \<Rightarrow>
          (case on_failure attempt max_retries consecutive_429s error_msg s1 of
             (Return v, c, s2) \<Rightarrow> (v, s2)
           | (Continue, c, s2) \<Rightarrow> attempts up max_retries k (Suc attempt) c s2))"

text \<open>
  \<open>call_tool_with_retry\<close> in two parts. The breaker is checked first; the rest runs
  under \<open>_global_request_lock\<close>. Acquiring that lock is a suspension point when another
  call holds it, so the locked part of a call may run in a state that other calls have
  changed since its check. \<open>call_tool_with_retry\<close> itself is the call that finds the
  lock free.
\<close>

definition call_tool_with_retry_locked ::
  "(nat \<Rightarrow> outcome) \<Rightarrow> nat \<Rightarrow> MCPManager \<Rightarrow> pyval \<times> MCPManager" where
  "call_tool_with_retry_locked up max_retries s = attempts up max_retries max_retries 0 0 s"

definition call_tool_with_retry ::
  "(nat \<Rightarrow> outcome) \<Rightarrow> nat \<Rightarrow> MCPManager \<Rightarrow> pyval \<times> MCPManager" where
  "call_tool_with_retry up max_retries s =
     (case check_circuit_breaker s of
        (True, s1) \<Rightarrow> (PNone, s1)
      | (False, s1) \<Rightarrow> call_tool_with_retry_locked up max_retries s1)"

text \<open>
  A sequence of passes through the rate limiter: before each pass the clock advances by
  the given gap (the time taken by everything else the manager does between two
  passes). The result lists the instants at which the passes recorded their call.
\<close>

fun rate_limited_calls :: "seconds list \<Rightarrow> MCPManager \<Rightarrow> seconds list" where
  "rate_limited_calls [] s = []"
| "rate_limited_calls (gap # gaps) s =
     (let s1 = wait_for_rate_limit (s\<lparr>clock := clock s + gap\<rparr>)
      in last (request_queue s1) # rate_limited_calls gaps s1)"

text \<open>
  Calls of \<open>call_tool_with_retry\<close> that follow one another, each finding the global
  lock free; before each call the clock advances by the given gap.
\<close>

fun sequential_calls :: "(nat \<Rightarrow> outcome) \<Rightarrow> nat \<Rightarrow> seconds list \<Rightarrow> MCPManager \<Rightarrow> MCPManager" where
  "sequential_calls up max_retries [] s = s"
| "sequential_calls up max_retries (gap # gaps) s =
     sequential_calls up max_retries gaps
       (snd (call_tool_with_retry up max_retries (s\<lparr>clock := clock s + gap\<rparr>)))"

section \<open>The endpoint \<open>/api/top-gainers-losers\<close>\<close>

text \<open>
  The process-wide state the endpoint works on: the \<open>cache_manager\<close> of
  \<^verbatim>\<open>main.py\<close> and the \<open>mcp_manager\<close> of \<^verbatim>\<open>mcp_manager.py\<close>, whose clock is the
  clock of the process.
\<close>

record app =
  cache_manager :: CacheManager
  mcp_manager :: MCPManager

definition CACHE_TTL_top_gainers_losers :: int where
  "CACHE_TTL_top_gainers_losers = 600"

definition top_gainers_cache_key :: "string \<Rightarrow> string \<Rightarrow> string \<Rightarrow> string" where
  "top_gainers_cache_key vs_currency dur top_coins =
     ''top_gainers_losers_'' @ vs_currency @ ''_'' @ dur @ ''_'' @ top_coins"

text \<open>\<open>TopGainersResponse(top_gainers=[], top_losers=[])\<close>.\<close>

definition empty_response :: pyval where
  "empty_response = PModel [(''top_gainers'', PList []), (''top_losers'', PList [])]"

text \<open>
  \<open>fetch_data\<close>, the closure of the endpoint. \<open>build\<close> is the construction of the
  \<open>TopGainersResponse\<close> from the parsed data by pydantic, which raises (\<open>Inl\<close>) on data
  that does not validate; it is the one statement of the \<open>try\<close> block that can raise,
  since \<open>call_tool_with_retry\<close> and the cache methods catch what is raised inside them.
\<close>

definition fetch_data ::
  "(pyval \<Rightarrow> string + pyval) \<Rightarrow> (nat \<Rightarrow> outcome) \<Rightarrow> string \<Rightarrow> app \<Rightarrow> pyval \<times> app" where
  "fetch_data build up cache_key a =
     (let (data, mcp1) = call_tool_with_retry up 3 (mcp_manager a);
          a1 = a\<lparr>mcp_manager := mcp1\<rparr>;
          now = clock mcp1
      in if truthy data
         then
           (case build data of
              Inr response \<Rightarrow>
                (response,
                 a1\<lparr>cache_manager :=
                      CacheManager_set now cache_key response CACHE_TTL_top_gainers_losers
                        (cache_manager a1)\<rparr>)
            | Inl e \<Rightarrow>
                (let (stale_data, cm1) =
                       CacheManager_get_stale now cache_key (cache_logs (FetchError e) (cache_manager a1))
                 in if truthy stale_data then (stale_data, a1\<lparr>cache_manager := cm1\<rparr>)
                    else (empty_response, a1\<lparr>cache_manager := cm1\<rparr>)))
         else
           (let (stale_data, cm1) = CacheManager_get_stale now cache_key (cache_manager a1)
            in if truthy stale_data then (stale_data, a1\<lparr>cache_manager := cm1\<rparr>)
               else (empty_response,
                     a1\<lparr>cache_manager := CacheManager_set now cache_key empty_response 60 cm1\<rparr>)))"

text \<open>
  \<open>get_top_gainers_losers\<close> for a request that no other request for the same key
  overlaps: \<open>debounced_request\<close> then finds the lock of the key free and no active
  request, runs \<open>fetch_data\<close> once and returns its result.
\<close>

definition get_top_gainers_losers ::
  "(pyval \<Rightarrow> string + pyval) \<Rightarrow> (nat \<Rightarrow> outcome) \<Rightarrow> string \<Rightarrow> string \<Rightarrow> string \<Rightarrow> app
     \<Rightarrow> pyval \<times> app" where
  "get_top_gainers_losers build up vs_currency dur top_coins a =
     (let cache_key = top_gainers_cache_key vs_currency dur top_coins;
          (cached_data, cm1) =
             CacheManager_get (clock (mcp_manager a)) cache_key (cache_manager a);
          a1 = a\<lparr>cache_manager := cm1\<rparr>
      in if truthy cached_data then (cached_data, a1)
         else fetch_data build up cache_key a1)"

section \<open>Request coalescing: \<open>debounced_request\<close>\<close>

text \<open>
  \<open>debounced_request\<close> is a coroutine; several calls of it are interleaved by the
  event loop, which runs one coroutine at a time until it suspends. The model is the
  state of the two module-level dictionaries, of every caller and of every task created
  with \<open>asyncio.create_task\<close>, and it advances by events of the environment: a new
  caller enters, or a running task finishes.

  A caller is suspended at one of three places, or has returned:
  \<^item> \<open>WaitingLock key\<close>: in \<open>async with _request_locks[key]\<close>, the lock being held;
  \<^item> \<open>AwaitingActive key t\<close>: in \<open>return await _active_requests[key]\<close>, holding the lock;
  \<^item> \<open>AwaitingOwn key t\<close>: in \<open>result = await task\<close>, holding the lock;
  \<^item> \<open>Returned v\<close>.
\<close>

datatype caller_state =
    WaitingLock string
  | AwaitingActive string nat
  | AwaitingOwn string nat
  | Returned pyval

text \<open>
  An \<open>asyncio.Lock\<close>: \<open>acquire\<close> returns at once when the lock is free and nobody
  waits; otherwise the caller joins the queue of waiters. \<open>release\<close> hands the lock to
  the first waiter.
\<close>

record asyncio_lock =
  locked :: bool
  waiters :: "nat list"

text \<open>
  A task created by \<open>asyncio.create_task(request_func())\<close>: the key it was created
  for, the callers that await it, and its result once \<open>request_func\<close> has returned.
  (\<open>fetch_data\<close> catches every exception, so a task ends with a value.)
\<close>

record task =
  task_key :: string
  awaiters :: "nat list"
  task_result :: "pyval option"

text \<open>
  Callers and tasks are numbered in the order of their creation, so the length of
  \<open>tasks\<close> is the number of times \<open>request_func\<close> has been invoked.
\<close>

record coalescer =
  request_locks :: "string \<rightharpoonup> asyncio_lock"
  active_requests :: "string \<rightharpoonup> nat"
  callers :: "caller_state list"
  tasks :: "task list"

definition coalescer_init :: coalescer where
  "coalescer_init = \<lparr>request_locks = Map.empty, active_requests = Map.empty, callers = [], tasks = []\<rparr>"

text \<open>
  The lock of a key in \<open>_request_locks\<close>; a key that has none yet gets a new lock, which
  is free.
\<close>

definition the_lock :: "(string \<rightharpoonup> asyncio_lock) \<Rightarrow> string \<Rightarrow> asyncio_lock" where
  "the_lock locks key =
     (case locks key of Some l \<Rightarrow> l | None \<Rightarrow> \<lparr>locked = False, waiters = []\<rparr>)"

text \<open>
  Caller \<open>c\<close> has just acquired the lock of \<open>key\<close> (lines 179 to 190): it awaits the
  active request if there is one, and otherwise creates a task, registers it and awaits it.
\<close>

definition enter_locked :: "nat \<Rightarrow> string \<Rightarrow> coalescer \<Rightarrow> coalescer" where
  "enter_locked c key st =
     (case active_requests st key of
        Some t \<Rightarrow>
          st\<lparr>tasks := (tasks st)[t := (tasks st ! t)\<lparr>awaiters := awaiters (tasks st ! t) @ [c]\<rparr>],
             callers := (callers st)[c := AwaitingActive key t]\<rparr>
      | None \<Rightarrow>
          (let t = length (tasks st)
           in st\<lparr>tasks := tasks st @ [\<lparr>task_key = key, awaiters = [c], task_result = None\<rparr>],
                 active_requests := (active_requests st)(key \<mapsto> t),
                 callers := (callers st)[c := AwaitingOwn key t]\<rparr>))"

text \<open>Leaving \<open>async with\<close>: the lock goes to the first waiter, who runs on from there.\<close>

definition release_lock :: "string \<Rightarrow> coalescer \<Rightarrow> coalescer" where
  "release_lock key st =
     (case waiters (the_lock (request_locks st) key) of
        [] \<Rightarrow> st\<lparr>request_locks := (request_locks st)(key \<mapsto> \<lparr>locked = False, waiters = []\<rparr>)\<rparr>
      | w # ws \<Rightarrow>
          enter_locked w key
            (st\<lparr>request_locks := (request_locks st)(key \<mapsto> \<lparr>locked = True, waiters = ws\<rparr>)\<rparr>))"

text \<open>
  The awaited task has finished with \<open>v\<close> and caller \<open>c\<close> is resumed. After
  \<open>await task\<close> the \<open>finally\<close> block removes the registration; after
  \<open>await _active_requests[key]\<close> there is no \<open>finally\<close>. Both then leave the
  \<open>async with\<close> and return \<open>v\<close>.
\<close>

definition resume :: "pyval \<Rightarrow> coalescer \<Rightarrow> nat \<Rightarrow> coalescer" where
  "resume v st c =
     (case callers st ! c of
        AwaitingOwn key t \<Rightarrow>
          release_lock key
            (st\<lparr>active_requests := (active_requests st)(key := None),
                callers := (callers st)[c := Returned v]\<rparr>)
      | AwaitingActive key t \<Rightarrow>
          release_lock key (st\<lparr>callers := (callers st)[c := Returned v]\<rparr>)
      | _ \<Rightarrow> st)"

datatype event =
    Call string
  | Finish nat pyval

text \<open>
  \<open>Call key\<close>: a new caller runs \<open>debounced_request(key, request_func)\<close> up to its
  first suspension (the lock of the key is created when the key has none).
  \<open>Finish t v\<close>: the running task \<open>t\<close> returns \<open>v\<close>, and the callers awaiting it are
  resumed in the order in which they began to wait; the event does nothing if \<open>t\<close> is
  not a running task.
\<close>

fun step :: "coalescer \<Rightarrow> event \<Rightarrow> coalescer" where
  "step st (Call key) =
     (let c = length (callers st);
          l = the_lock (request_locks st) key;
          st1 = st\<lparr>callers := callers st @ [WaitingLock key]\<rparr>
      in if \<not> locked l \<and> waiters l = []
         then enter_locked c key
                (st1\<lparr>request_locks := (request_locks st1)(key \<mapsto> l\<lparr>locked := True\<rparr>)\<rparr>)
         else st1\<lparr>request_locks := (request_locks st1)(key \<mapsto> l\<lparr>waiters := waiters l @ [c]\<rparr>)\<rparr>)"
| "step st (Finish t v) =
     (if t < length (tasks st) \<and> task_result (tasks st ! t) = None
      then foldl (resume v)
             (st\<lparr>tasks := (tasks st)[t := (tasks st ! t)\<lparr>awaiters := [], task_result := Some v\<rparr>]\<rparr>)
             (awaiters (tasks st ! t))
      else st)"

definition run :: "event list \<Rightarrow> coalescer" where
  "run evs = foldl step coalescer_init evs"

text \<open>
  The number of invocations of \<open>request_func\<close> so far, and the number of those for
  \<open>key\<close> that are still under way.
\<close>

definition invocations :: "coalescer \<Rightarrow> nat" where
  "invocations st = length (tasks st)"

definition underway :: "coalescer \<Rightarrow> string \<Rightarrow> nat" where
  "underway st key =
     length (filter (\<lambda>t. task_key t = key \<and> task_result t = None) (tasks st))"

section \<open>The invariant of the rate limiter\<close>

text \<open>
  \<open>h\<close> is the list of all instants at which \<open>_wait_for_rate_limit\<close> has recorded a
  call so far, oldest first. The invariant relates it to the manager: the recorded calls
  are at least \<open>request_delay\<close> apart and none is later than \<open>last_request_time\<close> or
  than the clock; \<open>request_queue\<close> holds the recorded calls later than some instant
  that lies at least 60 seconds back; and the 60 seconds that end with any recorded call
  hold at most \<open>max_requests_per_minute\<close> recorded calls.
\<close>

definition limiter_inv :: "MCPManager \<Rightarrow> seconds list \<Rightarrow> bool" where
  "limiter_inv s h \<longleftrightarrow>
     sorted_wrt (\<lambda>a b. a + request_delay \<le> b) h
     \<and> (\<forall>t \<in> set h. t \<le> last_request_time s \<and> t \<le> clock s)
     \<and> (h \<noteq> [] \<longrightarrow> last_request_time s \<in> set h)
     \<and> (\<exists>c. c + 60 \<le> clock s \<and> request_queue s = filter (\<lambda>t. c < t) h)
     \<and> (\<forall>r \<in> set h. length (filter (\<lambda>t. r - 60 < t \<and> t \<le> r) h) \<le> max_requests_per_minute)"

section \<open>Absence from the persistent tier\<close>

text \<open>
  The persistent tier holds no item for the key (or there is no persistent tier).
\<close>

definition no_persistent_entry :: "CacheManager \<Rightarrow> string \<Rightarrow> bool" where
  "no_persistent_entry m key =
     (case chroma_cache m of
        None \<Rightarrow> True
      | Some c \<Rightarrow>
          (case collection c of
             None \<Rightarrow> True
           | Some coll \<Rightarrow> coll (generate_cache_key key) = None))"

section \<open>The invariant of request coalescing\<close>

text \<open>
  A caller that is past \<open>async with _request_locks[key]\<close>: it holds the lock or has
  returned.
\<close>

fun holds_or_done :: "caller_state \<Rightarrow> bool" where
  "holds_or_done (WaitingLock key) = False"
| "holds_or_done (AwaitingActive key t) = True"
| "holds_or_done (AwaitingOwn key t) = True"
| "holds_or_done (Returned v) = True"

text \<open>
  The invariant of the states that \<open>debounced_request\<close> can reach:
  \<^item> a registered request is a running task of its key, and the lock of the key is held;
  \<^item> a running task is the registered request of its key, and exactly one caller awaits
    it, the one that created it;
  \<^item> while no request is registered for a key, its lock is free and nobody waits for it;
  \<^item> the callers waiting for a lock are distinct and are suspended on that lock;
  \<^item> no caller awaits a request registered by another caller, and a caller awaiting
    its own task is the only one awaiting it;
  \<^item> there are as many tasks as callers past the lock.
\<close>

definition coalescer_inv :: "coalescer \<Rightarrow> bool" where
  "coalescer_inv st \<longleftrightarrow>
     (\<forall>key t. active_requests st key = Some t \<longrightarrow>
        t < length (tasks st) \<and> task_key (tasks st ! t) = key
        \<and> task_result (tasks st ! t) = None
        \<and> locked (the_lock (request_locks st) key))
     \<and> (\<forall>t < length (tasks st). task_result (tasks st ! t) = None \<longrightarrow>
          active_requests st (task_key (tasks st ! t)) = Some t
          \<and> (\<exists>c < length (callers st). awaiters (tasks st ! t) = [c]
                \<and> callers st ! c = AwaitingOwn (task_key (tasks st ! t)) t))
     \<and> (\<forall>key. active_requests st key = None \<longrightarrow>
          \<not> locked (the_lock (request_locks st) key)
          \<and> waiters (the_lock (request_locks st) key) = [])
     \<and> (\<forall>key. distinct (waiters (the_lock (request_locks st) key))
          \<and> (\<forall>w \<in> set (waiters (the_lock (request_locks st) key)).
                w < length (callers st) \<and> callers st ! w = WaitingLock key))
     \<and> (\<forall>c < length (callers st).
          (\<forall>key t. callers st ! c \<noteq> AwaitingActive key t)
          \<and> (\<forall>key t. callers st ! c = AwaitingOwn key t \<longrightarrow>
                active_requests st key = Some t \<and> awaiters (tasks st ! t) = [c]))
     \<and> length (tasks st) = length (filter holds_or_done (callers st))"

section \<open>Concrete states\<close>

text \<open>
  \<open>CacheManager.__init__\<close> with ChromaDB installed and its collection empty, and the
  same while the collection's operations fail.
\<close>

definition cache_init :: CacheManager where
  "cache_init =
     \<lparr>cache = Map.empty,
      chroma_cache = Some \<lparr>collection = Some Map.empty, faulty = False, chroma_log = []\<rparr>,
      cache_log = []\<rparr>"

definition cache_init_faulty :: CacheManager where
  "cache_init_faulty =
     \<lparr>cache = Map.empty,
      chroma_cache = Some \<lparr>collection = Some Map.empty, faulty = True, chroma_log = []\<rparr>,
      cache_log = []\<rparr>"

text \<open>A value stored at time 0 with a TTL of 600 seconds (hence in both tiers).\<close>

definition expired_hot_state :: CacheManager where
  "expired_hot_state = CacheManager_set 0 ''k'' (PDict [(''a'', PInt 1)]) 600 cache_init"

text \<open>A value stored at time 0 with a TTL of 60 seconds (hence in the hot tier only).\<close>

definition old_hot_state :: CacheManager where
  "old_hot_state = CacheManager_set 0 ''k'' (PInt 7) 60 cache_init"

text \<open>
  A persistent tier holding one item written at time 0, and a cache manager just after
  a restart of the process: the hot tier is empty and the persistent tier has survived.
\<close>

definition old_item_store :: ChromaPersistentCache where
  "old_item_store =
     \<lparr>collection = Some [generate_cache_key ''k'' \<mapsto>
                          \<lparr>document = PInt 5, endpoint = ''k'', timestamp = 0\<rparr>],
      faulty = False, chroma_log = []\<rparr>"

definition restarted_state :: CacheManager where
  "restarted_state = \<lparr>cache = Map.empty, chroma_cache = Some old_item_store, cache_log = []\<rparr>"

text \<open>
  Upstream sources: one that answers 429 to the first two calls and succeeds afterwards,
  one that always times out, and one that always fails in some other way.
\<close>

definition up_429_then_ok :: "nat \<Rightarrow> outcome" where
  "up_429_then_ok n =
     (if n < 2 then \<lparr>duration = 1, result = Inl ''429 Too Many Requests''\<rparr>
      else \<lparr>duration = 1, result = Inr (PDict [(''ok'', PBool True)])\<rparr>)"

definition up_timeout :: "nat \<Rightarrow> outcome" where
  "up_timeout n = \<lparr>duration = 1, result = Inl ''Read timeout''\<rparr>"

definition up_other :: "nat \<Rightarrow> outcome" where
  "up_other n = \<lparr>duration = 1, result = Inl ''boom''\<rparr>"

text \<open>
  The manager after one call of \<open>call_tool_with_retry\<close> against the first source,
  started at time 1000: the breaker has been open since 1022. And the manager in the
  middle of that call, after the first 429 and its backoff.
\<close>

definition breaker_open_state :: MCPManager where
  "breaker_open_state =
     \<lparr>request_queue = [1000, 1021], last_request_time = 1021, circuit_breaker_open = True,
      circuit_breaker_opened_at = 1022, clock = 1022, upstream_calls = 2\<rparr>"

definition after_first_429 :: MCPManager where
  "after_first_429 =
     \<lparr>request_queue = [1000], last_request_time = 1000, circuit_breaker_open = False,
      circuit_breaker_opened_at = 0, clock = 1021, upstream_calls = 1\<rparr>"

text \<open>
  A manager that has made no tool call, whose breaker is closed, and whose last pass
  through the rate limiter was at \<open>t\<close>, with the queue \<open>q\<close>.
\<close>

definition limiter_state :: "seconds list \<Rightarrow> seconds \<Rightarrow> MCPManager" where
  "limiter_state q t =
     \<lparr>request_queue = q, last_request_time = t, circuit_breaker_open = False,
      circuit_breaker_opened_at = 0, clock = t, upstream_calls = 0\<rparr>"

text \<open>
  An upstream source whose answer does not validate, a response construction that
  rejects it, the state of the process at its start (clock at 1000), and the same state
  \<open>d\<close> seconds later.
\<close>

definition up_bad_data :: "nat \<Rightarrow> outcome" where
  "up_bad_data n = \<lparr>duration = 1, result = Inr (PDict [(''top_gainers'', PStr ''bad'')])\<rparr>"

definition build_rejects :: "pyval \<Rightarrow> string + pyval" where
  "build_rejects data = Inl ''validation error''"

definition app_init :: app where
  "app_init = \<lparr>cache_manager = cache_init, mcp_manager = MCPManager_init 1000\<rparr>"

definition later :: "seconds \<Rightarrow> app \<Rightarrow> app" where
  "later d a = a\<lparr>mcp_manager := (mcp_manager a)\<lparr>clock := clock (mcp_manager a) + d\<rparr>\<rparr>"

section \<open>Properties of the two-tier cache\<close>

lemmas chroma_defs =
  chroma_get_def chroma_get_stale_def chroma_set_def collection_get_def
  collection_upsert_def collection_delete_def chroma_logs_def

lemmas cache_defs =
  CacheManager_get_def CacheManager_get_stale_def CacheManager_set_def cache_logs_def

lemmas example_defs =
  cache_init_def cache_init_faulty_def expired_hot_state_def old_hot_state_def
  old_item_store_def restarted_state_def generate_cache_key_def

lemma make_serializable_idem: "make_serializable (make_serializable v) = make_serializable v"
  by (induction v) (auto simp: map_prod_def split: prod.splits)

lemma set_hot:
  "cache (CacheManager_set now key data ttl m) = (cache m)(key \<mapsto> (data, now, ttl))"
  by (simp add: cache_defs Let_def split: option.splits)

lemma set_short:
  "ttl \<le> 60 \<Longrightarrow> chroma_cache (CacheManager_set now key data ttl m) = chroma_cache m"
  by (simp add: cache_defs Let_def split: option.splits)

lemma set_no_chroma:
  "chroma_cache m = None \<Longrightarrow> chroma_cache (CacheManager_set now key data ttl m) = None"
  by (simp add: cache_defs Let_def split: option.splits)

lemma set_persist:
  "chroma_cache m = Some c \<Longrightarrow> collection c = Some coll \<Longrightarrow> \<not> faulty c \<Longrightarrow> ttl > 60 \<Longrightarrow>
   chroma_cache (CacheManager_set now key data ttl m) =
     Some (chroma_logs (ChromaCached key)
            (c\<lparr>collection := Some (coll(generate_cache_key key \<mapsto>
                 \<lparr>document = make_serializable data, endpoint = key, timestamp = now\<rparr>))\<rparr>))"
  by (simp add: cache_defs chroma_defs make_serializable_idem Let_def split: option.splits)

lemma set_fail:
  "chroma_cache m = Some c \<Longrightarrow> collection c = Some coll \<Longrightarrow> faulty c \<Longrightarrow> ttl > 60 \<Longrightarrow>
   chroma_cache (CacheManager_set now key data ttl m) = Some (chroma_logs (ChromaSetError key) c)"
  by (simp add: cache_defs chroma_defs Let_def split: option.splits)

lemma get_fresh:
  "cache m key = Some (data, ts, ttl) \<Longrightarrow> now - ts < real_of_int ttl \<Longrightarrow>
   CacheManager_get now key m = (data, cache_logs (MemoryCacheHit key) m)"
  by (simp add: CacheManager_get_def)

lemma get_none_keeps:
  "fst (CacheManager_get now key m) = PNone \<Longrightarrow>
   cache (snd (CacheManager_get now key m)) = cache m"
  by (auto simp add: CacheManager_get_def cache_logs_def Let_def
           split: option.splits prod.splits if_splits)

lemma get_not_fresh_some:
  "\<not> (\<exists>d ts ttl. cache m key = Some (d, ts, ttl) \<and> now - ts < real_of_int ttl) \<Longrightarrow>
   fst (CacheManager_get now key m) \<noteq> PNone \<Longrightarrow>
   \<exists>c coll item. chroma_cache m = Some c \<and> collection c = Some coll
     \<and> coll (generate_cache_key key) = Some item
     \<and> now - timestamp item < 3600
     \<and> fst (CacheManager_get now key m) = document item
     \<and> cache (snd (CacheManager_get now key m)) key = Some (document item, now, 300)"
  by (auto simp add: CacheManager_get_def cache_logs_def set_hot chroma_get_def
                     collection_get_def Let_def
           split: option.splits prod.splits if_splits sum.splits)

lemma get_cold:
  "\<not> (\<exists>d ts ttl. cache m key = Some (d, ts, ttl) \<and> now - ts < real_of_int ttl) \<Longrightarrow>
   chroma_cache m = Some c \<Longrightarrow>
   fst (CacheManager_get now key m) =
     (if truthy (fst (chroma_get now key 1 c)) then fst (chroma_get now key 1 c) else PNone)"
  by (auto simp add: CacheManager_get_def cache_logs_def Let_def split: prod.splits option.splits)

lemma chroma_get_stale_some:
  "fst (chroma_get_stale now ep d c) \<noteq> PNone \<Longrightarrow>
   \<exists>coll item. collection c = Some coll \<and> coll (generate_cache_key ep) = Some item
     \<and> now - timestamp item < 86400 * real_of_int d
     \<and> fst (chroma_get_stale now ep d c) = document item"
  by (auto simp add: chroma_defs split: option.splits sum.splits if_splits)

lemma chroma_get_stale_old:
  "collection c = Some coll \<Longrightarrow> coll (generate_cache_key ep) = Some item \<Longrightarrow>
   \<not> now - timestamp item < 86400 * real_of_int d \<Longrightarrow> \<not> faulty c \<Longrightarrow>
   chroma_get_stale now ep d c =
     (PNone, chroma_logs (ChromaRemovedOld ep)
               (c\<lparr>collection := Some (coll(generate_cache_key ep := None))\<rparr>))"
  by (simp add: chroma_defs)

lemma get_stale_hot:
  "cache m key = Some (data, ts, ttl) \<Longrightarrow>
   CacheManager_get_stale now key m = (data, cache_logs (StaleMemoryUsed key) m)"
  by (simp add: CacheManager_get_stale_def)

lemma get_stale_cold:
  "cache m key = None \<Longrightarrow> chroma_cache m = Some c \<Longrightarrow>
   fst (CacheManager_get_stale now key m) =
     (if truthy (fst (chroma_get_stale now key 1 c))
      then fst (chroma_get_stale now key 1 c) else PNone)"
  by (simp add: CacheManager_get_stale_def Let_def split: prod.splits)

lemma get_stale_no_chroma:
  "cache m key = None \<Longrightarrow> chroma_cache m = None \<Longrightarrow>
   CacheManager_get_stale now key m = (PNone, m)"
  by (simp add: CacheManager_get_stale_def)

lemma get_stale_cold_some:
  assumes "cache m key = None" and "fst (CacheManager_get_stale now key m) \<noteq> PNone"
  shows "\<exists>c coll item. chroma_cache m = Some c \<and> collection c = Some coll
     \<and> coll (generate_cache_key key) = Some item
     \<and> now - timestamp item < 86400
     \<and> fst (CacheManager_get_stale now key m) = document item"
proof (cases "chroma_cache m")
  case None
  with assms show ?thesis by (simp add: get_stale_no_chroma)
next
  case (Some c)
  with assms have r: "fst (CacheManager_get_stale now key m) = fst (chroma_get_stale now key 1 c)"
    and n: "fst (chroma_get_stale now key 1 c) \<noteq> PNone"
    by (auto simp: get_stale_cold split: if_splits)
  from chroma_get_stale_some [OF n] r Some show ?thesis by auto
qed

lemma expired_hot_entry: "cache expired_hot_state ''k'' = Some (PDict [(''a'', PInt 1)], 0, 600)"
  by (simp add: expired_hot_state_def set_hot)

lemma old_hot_entry: "cache old_hot_state ''k'' = Some (PInt 7, 0, 60)"
  by (simp add: old_hot_state_def set_hot)

lemma old_hot_get: "fst (CacheManager_get 100 ''k'' old_hot_state) = PNone"
  by (simp add: example_defs cache_defs chroma_defs Let_def)

text \<open>
  Claim C2, counterexample. A value is stored at time 0 with a TTL of 600 seconds. At
  time 700 its age is not below the TTL, yet \<open>get\<close> returns its payload, taken from the
  persistent tier, and replaces the hot-tier entry by one stamped 700 with a TTL of 300.
\<close>

theorem CacheManager_get_expired_counterexample:
  "cache expired_hot_state ''k'' = Some (PDict [(''a'', PInt 1)], 0, 600)
   \<and> \<not> (700 - 0 < real_of_int 600)
   \<and> fst (CacheManager_get 700 ''k'' expired_hot_state) = PDict [(''a'', PInt 1)]
   \<and> cache (snd (CacheManager_get 700 ''k'' expired_hot_state)) ''k''
       = Some (PDict [(''a'', PInt 1)], 700, 300)"
  by (simp add: example_defs cache_defs chroma_defs Let_def)

text \<open>
  Claim C2, as amended. \<open>CacheManager.get\<close> returns the hot-tier entry exactly while
  its age is below its TTL. When the hot tier has no fresh entry, whatever \<open>get\<close>
  returns is the payload of an item of the persistent tier younger than one hour
  (whatever the TTL it was stored with), and that payload is written back to the hot
  tier with a TTL of 300 seconds. When \<open>get\<close> returns nothing, the hot tier is left as
  it was, so an expired entry is not deleted.
\<close>

theorem CacheManager_get_fresh_or_persistent:
  "(cache m key = Some (data, ts, ttl) \<and> now - ts < real_of_int ttl
      \<longrightarrow> CacheManager_get now key m = (data, cache_logs (MemoryCacheHit key) m))
   \<and> (\<not> (\<exists>d ts ttl. cache m key = Some (d, ts, ttl) \<and> now - ts < real_of_int ttl)
        \<and> fst (CacheManager_get now key m) \<noteq> PNone
      \<longrightarrow> (\<exists>c coll item. chroma_cache m = Some c \<and> collection c = Some coll
             \<and> coll (generate_cache_key key) = Some item
             \<and> now - timestamp item < 3600
             \<and> fst (CacheManager_get now key m) = document item
             \<and> cache (snd (CacheManager_get now key m)) key = Some (document item, now, 300)))
   \<and> (fst (CacheManager_get now key m) = PNone
      \<longrightarrow> cache (snd (CacheManager_get now key m)) = cache m)"
  using get_fresh get_not_fresh_some get_none_keeps by blast

theorem CacheManager_get_fresh_or_persistent_witness:
  "CacheManager_get 100 ''k'' expired_hot_state
     = (PDict [(''a'', PInt 1)], cache_logs (MemoryCacheHit ''k'') expired_hot_state)
   \<and> (\<exists>c coll item. chroma_cache expired_hot_state = Some c \<and> collection c = Some coll
         \<and> coll (generate_cache_key ''k'') = Some item
         \<and> 700 - timestamp item < 3600
         \<and> fst (CacheManager_get 700 ''k'' expired_hot_state) = document item
         \<and> cache (snd (CacheManager_get 700 ''k'' expired_hot_state)) ''k''
             = Some (document item, 700, 300))
   \<and> cache (snd (CacheManager_get 100 ''k'' old_hot_state)) = cache old_hot_state"
proof -
  have fresh: "cache expired_hot_state ''k'' = Some (PDict [(''a'', PInt 1)], 0, 600)
      \<and> 100 - 0 < real_of_int 600"
    by (simp add: expired_hot_entry)
  have stale: "\<not> (\<exists>d ts ttl. cache expired_hot_state ''k'' = Some (d, ts, ttl)
      \<and> 700 - ts < real_of_int ttl)"
    by (simp add: expired_hot_entry)
  have some: "fst (CacheManager_get 700 ''k'' expired_hot_state) \<noteq> PNone"
    by (simp add: example_defs cache_defs chroma_defs Let_def)
  show ?thesis
    using CacheManager_get_fresh_or_persistent
            [of expired_hot_state "''k''" "PDict [(''a'', PInt 1)]" 0 600 100]
          CacheManager_get_fresh_or_persistent
            [of expired_hot_state "''k''" "PDict [(''a'', PInt 1)]" 0 600 700]
          CacheManager_get_fresh_or_persistent
            [of old_hot_state "''k''" "PInt 7" 0 60 100]
          fresh stale some old_hot_get
    by blast
qed

text \<open>
  Claim C3, counterexample. A value is stored in the hot tier at time 0. Ten days later
  (864000 seconds, beyond the bound of one day that \<open>CacheManager.get_stale\<close> passes to
  the persistent tier, and beyond the default of seven days) \<open>CacheManager.get_stale\<close>
  still returns it, and the entry stays in the hot tier.
\<close>

theorem CacheManager_get_stale_unbounded_counterexample:
  "cache old_hot_state ''k'' = Some (PInt 7, 0, 60)
   \<and> \<not> (864000 - 0 < 86400 * real_of_int 7)
   \<and> fst (CacheManager_get_stale 864000 ''k'' old_hot_state) = PInt 7
   \<and> cache (snd (CacheManager_get_stale 864000 ''k'' old_hot_state)) ''k'' = Some (PInt 7, 0, 60)"
  by (simp add: old_hot_entry get_stale_hot cache_logs_def)

text \<open>
  Claim C3, as amended. The staleness bound is enforced by the persistent tier only.
  \<open>ChromaPersistentCache.get_stale\<close> with the bound \<open>d\<close> (in days) returns nothing but
  the payload of an item younger than \<open>d\<close> days; an item that is not younger is deleted
  and nothing is returned, provided the operations of the collection do not fail.
  \<open>CacheManager.get_stale\<close> returns the hot-tier entry of the key whatever its age and
  deletes nothing; only when the hot tier has no entry for the key does it ask the
  persistent tier, with a bound of one day.
\<close>

theorem get_stale_bound_in_persistent_tier:
  "(fst (chroma_get_stale now ep d c) \<noteq> PNone
      \<longrightarrow> (\<exists>coll item. collection c = Some coll \<and> coll (generate_cache_key ep) = Some item
             \<and> now - timestamp item < 86400 * real_of_int d
             \<and> fst (chroma_get_stale now ep d c) = document item))
   \<and> (collection c = Some coll' \<and> coll' (generate_cache_key ep) = Some item'
        \<and> \<not> now - timestamp item' < 86400 * real_of_int d \<and> \<not> faulty c
      \<longrightarrow> fst (chroma_get_stale now ep d c) = PNone
          \<and> collection (snd (chroma_get_stale now ep d c))
               = Some (coll'(generate_cache_key ep := None)))
   \<and> (cache m key = Some (data, ts, ttl)
      \<longrightarrow> CacheManager_get_stale now key m = (data, cache_logs (StaleMemoryUsed key) m))
   \<and> (cache m key = None \<and> fst (CacheManager_get_stale now key m) \<noteq> PNone
      \<longrightarrow> (\<exists>pc coll item. chroma_cache m = Some pc \<and> collection pc = Some coll
             \<and> coll (generate_cache_key key) = Some item
             \<and> now - timestamp item < 86400
             \<and> fst (CacheManager_get_stale now key m) = document item))"
proof (intro conjI impI)
  assume "fst (chroma_get_stale now ep d c) \<noteq> PNone"
  then show "\<exists>coll item. collection c = Some coll \<and> coll (generate_cache_key ep) = Some item
      \<and> now - timestamp item < 86400 * real_of_int d
      \<and> fst (chroma_get_stale now ep d c) = document item"
    by (rule chroma_get_stale_some)
next
  assume a: "collection c = Some coll' \<and> coll' (generate_cache_key ep) = Some item'
      \<and> \<not> now - timestamp item' < 86400 * real_of_int d \<and> \<not> faulty c"
  then have e: "chroma_get_stale now ep d c =
      (PNone, chroma_logs (ChromaRemovedOld ep)
                (c\<lparr>collection := Some (coll'(generate_cache_key ep := None))\<rparr>))"
    by (simp add: chroma_get_stale_old)
  show "fst (chroma_get_stale now ep d c) = PNone" by (simp add: e)
  show "collection (snd (chroma_get_stale now ep d c))
      = Some (coll'(generate_cache_key ep := None))"
    by (simp add: e chroma_logs_def)
next
  assume "cache m key = Some (data, ts, ttl)"
  then show "CacheManager_get_stale now key m = (data, cache_logs (StaleMemoryUsed key) m)"
    by (rule get_stale_hot)
next
  assume "cache m key = None \<and> fst (CacheManager_get_stale now key m) \<noteq> PNone"
  then show "\<exists>pc coll item. chroma_cache m = Some pc \<and> collection pc = Some coll
      \<and> coll (generate_cache_key key) = Some item
      \<and> now - timestamp item < 86400
      \<and> fst (CacheManager_get_stale now key m) = document item"
    using get_stale_cold_some by blast
qed

lemma old_item_young: "fst (chroma_get_stale 3600 ''k'' 7 old_item_store) = PInt 5"
  by (simp add: example_defs chroma_defs)

lemma restarted_stale: "fst (CacheManager_get_stale 3600 ''k'' restarted_state) = PInt 5"
  by (simp add: example_defs cache_defs chroma_defs Let_def)

theorem get_stale_bound_in_persistent_tier_witness:
  "(\<exists>coll item. collection old_item_store = Some coll
        \<and> coll (generate_cache_key ''k'') = Some item
        \<and> 3600 - timestamp item < 86400 * real_of_int 7
        \<and> fst (chroma_get_stale 3600 ''k'' 7 old_item_store) = document item)
   \<and> fst (chroma_get_stale 864000 ''k'' 7 old_item_store) = PNone
   \<and> collection (snd (chroma_get_stale 864000 ''k'' 7 old_item_store))
        = Some ([generate_cache_key ''k'' \<mapsto> \<lparr>document = PInt 5, endpoint = ''k'', timestamp = 0\<rparr>]
                  (generate_cache_key ''k'' := None))
   \<and> CacheManager_get_stale 864000 ''k'' old_hot_state
        = (PInt 7, cache_logs (StaleMemoryUsed ''k'') old_hot_state)
   \<and> (\<exists>pc coll item. chroma_cache restarted_state = Some pc \<and> collection pc = Some coll
        \<and> coll (generate_cache_key ''k'') = Some item
        \<and> 3600 - timestamp item < 86400
        \<and> fst (CacheManager_get_stale 3600 ''k'' restarted_state) = document item)"
proof -
  have young: "fst (chroma_get_stale 3600 ''k'' 7 old_item_store) \<noteq> PNone"
    by (simp add: old_item_young)
  have old: "collection old_item_store
        = Some [generate_cache_key ''k'' \<mapsto> \<lparr>document = PInt 5, endpoint = ''k'', timestamp = 0\<rparr>]
      \<and> [generate_cache_key ''k'' \<mapsto> \<lparr>document = PInt 5, endpoint = ''k'', timestamp = 0\<rparr>]
            (generate_cache_key ''k'')
          = Some \<lparr>document = PInt 5, endpoint = ''k'', timestamp = 0\<rparr>
      \<and> \<not> 864000 - timestamp \<lparr>document = PInt 5, endpoint = ''k'', timestamp = 0\<rparr>
            < 86400 * real_of_int 7
      \<and> \<not> faulty old_item_store"
    by (simp add: old_item_store_def)
  have cold: "cache restarted_state ''k'' = None
      \<and> fst (CacheManager_get_stale 3600 ''k'' restarted_state) \<noteq> PNone"
    by (simp add: restarted_stale) (simp add: restarted_state_def)
  show ?thesis
    using get_stale_bound_in_persistent_tier
            [where now = 3600 and ep = "''k''" and d = 7 and c = old_item_store
               and m = restarted_state and key = "''k''"]
          get_stale_bound_in_persistent_tier
            [where now = 864000 and ep = "''k''" and d = 7 and c = old_item_store
               and coll' = "[generate_cache_key ''k'' \<mapsto>
                               \<lparr>document = PInt 5, endpoint = ''k'', timestamp = 0\<rparr>]"
               and item' = "\<lparr>document = PInt 5, endpoint = ''k'', timestamp = 0\<rparr>"
               and m = old_hot_state and key = "''k''" and data = "PInt 7" and ts = 0
               and ttl = 60]
          young old cold old_hot_entry
    by blast
qed

text \<open>
  Claim C8, counterexample. Just after a restart the hot tier is empty and the
  persistent tier holds an item written ten seconds ago. The fresh lookup
  \<open>CacheManager.get\<close>, which the endpoint runs before any fetch, returns that item:
  with the same hot tier and no persistent tier it returns nothing.
\<close>

theorem CacheManager_get_reads_persistent_counterexample:
  "cache restarted_state ''k'' = None
   \<and> fst (CacheManager_get 10 ''k'' restarted_state) = PInt 5
   \<and> fst (CacheManager_get 10 ''k'' (restarted_state\<lparr>chroma_cache := None\<rparr>)) = PNone"
  by (simp add: example_defs cache_defs chroma_defs Let_def)

text \<open>
  Claim C8, as amended. While the hot tier holds a fresh entry for the key, the fresh
  lookup does not depend on the persistent tier and leaves it untouched. On a hot-tier
  miss or expiry the fresh lookup itself reads the persistent tier, before any fetch,
  and returns what \<open>ChromaPersistentCache.get\<close> finds younger than one hour (if that is
  truthy). The stale lookup does not depend on the persistent tier while the hot tier
  holds any entry for the key, and otherwise returns what
  \<open>ChromaPersistentCache.get_stale\<close> finds younger than one day (if that is truthy).
\<close>

theorem persistent_tier_read_on_hot_miss:
  "(cache m key = Some (data, ts, ttl) \<and> now - ts < real_of_int ttl
      \<longrightarrow> fst (CacheManager_get now key (m\<lparr>chroma_cache := pc\<rparr>)) = data
          \<and> chroma_cache (snd (CacheManager_get now key (m\<lparr>chroma_cache := pc\<rparr>))) = pc)
   \<and> (\<not> (\<exists>d ts ttl. cache m key = Some (d, ts, ttl) \<and> now - ts < real_of_int ttl)
        \<and> chroma_cache m = Some c
      \<longrightarrow> fst (CacheManager_get now key m)
            = (if truthy (fst (chroma_get now key 1 c))
               then fst (chroma_get now key 1 c) else PNone))
   \<and> (cache m key = Some (data, ts, ttl)
      \<longrightarrow> fst (CacheManager_get_stale now key (m\<lparr>chroma_cache := pc\<rparr>)) = data
          \<and> chroma_cache (snd (CacheManager_get_stale now key (m\<lparr>chroma_cache := pc\<rparr>))) = pc)
   \<and> (cache m key = None \<and> chroma_cache m = Some c
      \<longrightarrow> fst (CacheManager_get_stale now key m)
            = (if truthy (fst (chroma_get_stale now key 1 c))
               then fst (chroma_get_stale now key 1 c) else PNone))"
proof (intro conjI impI)
  assume a: "cache m key = Some (data, ts, ttl) \<and> now - ts < real_of_int ttl"
  then have "CacheManager_get now key (m\<lparr>chroma_cache := pc\<rparr>)
      = (data, cache_logs (MemoryCacheHit key) (m\<lparr>chroma_cache := pc\<rparr>))"
    by (simp add: get_fresh)
  then show "fst (CacheManager_get now key (m\<lparr>chroma_cache := pc\<rparr>)) = data"
    and "chroma_cache (snd (CacheManager_get now key (m\<lparr>chroma_cache := pc\<rparr>))) = pc"
    by (simp_all add: cache_logs_def)
next
  assume "\<not> (\<exists>d ts ttl. cache m key = Some (d, ts, ttl) \<and> now - ts < real_of_int ttl)
      \<and> chroma_cache m = Some c"
  then show "fst (CacheManager_get now key m)
      = (if truthy (fst (chroma_get now key 1 c)) then fst (chroma_get now key 1 c) else PNone)"
    using get_cold by blast
next
  assume a: "cache m key = Some (data, ts, ttl)"
  then have "CacheManager_get_stale now key (m\<lparr>chroma_cache := pc\<rparr>)
      = (data, cache_logs (StaleMemoryUsed key) (m\<lparr>chroma_cache := pc\<rparr>))"
    by (simp add: get_stale_hot)
  then show "fst (CacheManager_get_stale now key (m\<lparr>chroma_cache := pc\<rparr>)) = data"
    and "chroma_cache (snd (CacheManager_get_stale now key (m\<lparr>chroma_cache := pc\<rparr>))) = pc"
    by (simp_all add: cache_logs_def)
next
  assume "cache m key = None \<and> chroma_cache m = Some c"
  then show "fst (CacheManager_get_stale now key m)
      = (if truthy (fst (chroma_get_stale now key 1 c))
         then fst (chroma_get_stale now key 1 c) else PNone)"
    by (simp add: get_stale_cold)
qed

theorem persistent_tier_read_on_hot_miss_witness:
  "fst (CacheManager_get 100 ''k'' (expired_hot_state\<lparr>chroma_cache := None\<rparr>))
     = PDict [(''a'', PInt 1)]
   \<and> chroma_cache (snd (CacheManager_get 100 ''k'' (expired_hot_state\<lparr>chroma_cache := None\<rparr>)))
       = None
   \<and> fst (CacheManager_get 10 ''k'' restarted_state)
       = (if truthy (fst (chroma_get 10 ''k'' 1 old_item_store))
          then fst (chroma_get 10 ''k'' 1 old_item_store) else PNone)
   \<and> fst (CacheManager_get_stale 864000 ''k'' (old_hot_state\<lparr>chroma_cache := None\<rparr>)) = PInt 7
   \<and> fst (CacheManager_get_stale 10 ''k'' restarted_state)
       = (if truthy (fst (chroma_get_stale 10 ''k'' 1 old_item_store))
          then fst (chroma_get_stale 10 ''k'' 1 old_item_store) else PNone)"
proof -
  have fresh: "cache expired_hot_state ''k'' = Some (PDict [(''a'', PInt 1)], 0, 600)
      \<and> 100 - 0 < real_of_int 600"
    by (simp add: expired_hot_entry)
  have cold: "\<not> (\<exists>d ts ttl. cache restarted_state ''k'' = Some (d, ts, ttl)
        \<and> 10 - ts < real_of_int ttl)
      \<and> chroma_cache restarted_state = Some old_item_store"
    by (simp add: restarted_state_def)
  have none: "cache restarted_state ''k'' = None \<and> chroma_cache restarted_state = Some old_item_store"
    by (simp add: restarted_state_def)
  show ?thesis
    using persistent_tier_read_on_hot_miss
            [where m = expired_hot_state and key = "''k''" and data = "PDict [(''a'', PInt 1)]"
               and ts = 0 and ttl = 600 and now = 100 and pc = None]
          persistent_tier_read_on_hot_miss
            [where m = restarted_state and key = "''k''" and now = 10 and c = old_item_store]
          persistent_tier_read_on_hot_miss
            [where m = old_hot_state and key = "''k''" and data = "PInt 7"
               and ts = 0 and ttl = 60 and now = 864000 and pc = None]
          fresh cold none old_hot_entry
    by blast
qed

text \<open>
  Claim C9. \<open>CacheManager.set\<close> always writes the hot tier. With a TTL of at most 60
  seconds the persistent tier is left as it was; with a larger TTL and a working
  collection the serialised value is written there under the key's digest. When the
  write to the collection fails, the failure is logged (\<open>ChromaSetError\<close>), the
  collection is left as it was, and \<open>set\<close> returns with the hot tier written all the same.
\<close>

theorem CacheManager_set_tiers:
  "cache (CacheManager_set now key data ttl m) = (cache m)(key \<mapsto> (data, now, ttl))
   \<and> (ttl \<le> 60 \<longrightarrow> chroma_cache (CacheManager_set now key data ttl m) = chroma_cache m)
   \<and> (ttl > 60 \<and> chroma_cache m = Some c \<and> collection c = Some coll \<and> \<not> faulty c
      \<longrightarrow> chroma_cache (CacheManager_set now key data ttl m)
            = Some (chroma_logs (ChromaCached key)
                     (c\<lparr>collection := Some (coll(generate_cache_key key \<mapsto>
                          \<lparr>document = make_serializable data, endpoint = key,
                           timestamp = now\<rparr>))\<rparr>)))
   \<and> (ttl > 60 \<and> chroma_cache m = Some c \<and> collection c = Some coll \<and> faulty c
      \<longrightarrow> cache (CacheManager_set now key data ttl m) key = Some (data, now, ttl)
          \<and> chroma_cache (CacheManager_set now key data ttl m)
            = Some (chroma_logs (ChromaSetError key) c))"
  by (simp add: set_hot set_short set_persist set_fail)

theorem CacheManager_set_tiers_witness:
  "cache (CacheManager_set 5 ''k'' (PInt 1) 60 cache_init) = (cache cache_init)(''k'' \<mapsto> (PInt 1, 5, 60))
   \<and> chroma_cache (CacheManager_set 5 ''k'' (PInt 1) 60 cache_init) = chroma_cache cache_init
   \<and> chroma_cache (CacheManager_set 5 ''k'' (PInt 1) 61 cache_init)
       = Some (chroma_logs (ChromaCached ''k'')
                (\<lparr>collection = Some Map.empty, faulty = False, chroma_log = []\<rparr>
                   \<lparr>collection := Some [generate_cache_key ''k'' \<mapsto>
                        \<lparr>document = make_serializable (PInt 1), endpoint = ''k'',
                         timestamp = 5\<rparr>]\<rparr>))
   \<and> cache (CacheManager_set 5 ''k'' (PInt 1) 61 cache_init_faulty) ''k'' = Some (PInt 1, 5, 61)
   \<and> chroma_cache (CacheManager_set 5 ''k'' (PInt 1) 61 cache_init_faulty)
       = Some (chroma_logs (ChromaSetError ''k'')
                \<lparr>collection = Some Map.empty, faulty = True, chroma_log = []\<rparr>)"
proof -
  have ok: "(61::int) > 60
      \<and> chroma_cache cache_init
          = Some \<lparr>collection = Some Map.empty, faulty = False, chroma_log = []\<rparr>
      \<and> collection \<lparr>collection = Some Map.empty, faulty = False, chroma_log = []\<rparr>
          = Some Map.empty
      \<and> \<not> faulty \<lparr>collection = Some Map.empty, faulty = False, chroma_log = []\<rparr>"
    by (simp add: cache_init_def)
  have bad: "(61::int) > 60
      \<and> chroma_cache cache_init_faulty
          = Some \<lparr>collection = Some Map.empty, faulty = True, chroma_log = []\<rparr>
      \<and> collection \<lparr>collection = Some Map.empty, faulty = True, chroma_log = []\<rparr>
          = Some Map.empty
      \<and> faulty \<lparr>collection = Some Map.empty, faulty = True, chroma_log = []\<rparr>"
    by (simp add: cache_init_faulty_def)
  have short: "(60::int) \<le> 60" by simp
  show ?thesis
    using CacheManager_set_tiers [where now = 5 and key = "''k''" and data = "PInt 1"
            and ttl = 60 and m = cache_init]
          CacheManager_set_tiers [where now = 5 and key = "''k''" and data = "PInt 1"
            and ttl = 61 and m = cache_init
            and c = "\<lparr>collection = Some Map.empty, faulty = False, chroma_log = []\<rparr>"
            and coll = Map.empty]
          CacheManager_set_tiers [where now = 5 and key = "''k''" and data = "PInt 1"
            and ttl = 61 and m = cache_init_faulty
            and c = "\<lparr>collection = Some Map.empty, faulty = True, chroma_log = []\<rparr>"
            and coll = Map.empty]
          ok bad short
    by (metis (no_types, lifting))
qed

section \<open>Properties of the rate limiter\<close>

text \<open>What one pass through \<open>_wait_for_rate_limit\<close> does to the manager.\<close>

lemma wfrl_clock_ge: "clock s \<le> clock (wait_for_rate_limit s)"
  by (simp add: wait_for_rate_limit_def sleep_def Let_def)

lemma wfrl_queue:
  "request_queue (wait_for_rate_limit s) =
     filter (\<lambda>t. clock s - t < 60) (request_queue s) @ [clock (wait_for_rate_limit s)]"
  by (simp add: wait_for_rate_limit_def sleep_def Let_def)

lemma wfrl_last: "last_request_time (wait_for_rate_limit s) = clock (wait_for_rate_limit s)"
  by (simp add: wait_for_rate_limit_def sleep_def Let_def)

lemma wfrl_spacing: "last_request_time s + request_delay \<le> clock (wait_for_rate_limit s)"
  by (simp add: wait_for_rate_limit_def sleep_def Let_def request_delay_def)

lemma wfrl_window:
  assumes "max_requests_per_minute \<le> length (filter (\<lambda>t. clock s - t < 60) (request_queue s))"
  shows "hd (filter (\<lambda>t. clock s - t < 60) (request_queue s)) + 70 \<le> clock (wait_for_rate_limit s)"
proof -
  let ?q = "filter (\<lambda>t. clock s - t < 60) (request_queue s)"
  from assms have "?q \<noteq> []" by (auto simp: max_requests_per_minute_def)
  then have "hd ?q \<in> set ?q" by (rule hd_in_set)
  then have "clock s - hd ?q < 60" by (metis (mono_tags, lifting) mem_Collect_eq set_filter)
  with assms show ?thesis
    by (simp add: wait_for_rate_limit_def sleep_def Let_def request_delay_def)
qed

lemma wfrl_unchanged:
  "circuit_breaker_open (wait_for_rate_limit s) = circuit_breaker_open s"
  "circuit_breaker_opened_at (wait_for_rate_limit s) = circuit_breaker_opened_at s"
  "upstream_calls (wait_for_rate_limit s) = upstream_calls s"
  by (simp_all add: wait_for_rate_limit_def sleep_def Let_def)

lemma length_filter_mono:
  "(\<And>x. x \<in> set xs \<Longrightarrow> P x \<Longrightarrow> Q x) \<Longrightarrow> length (filter P xs) \<le> length (filter Q xs)"
  by (induction xs) auto

lemma spaced_le_last:
  "sorted_wrt (\<lambda>a b. a + request_delay \<le> b) xs \<Longrightarrow> t \<in> set xs \<Longrightarrow> t \<le> last xs"
proof (induction xs)
  case Nil
  then show ?case by simp
next
  case (Cons x xs)
  show ?case
  proof (cases "xs = []")
    case True
    with Cons.prems show ?thesis by simp
  next
    case False
    then have "last xs \<in> set xs" by (rule last_in_set)
    with Cons.prems(1) have "x + request_delay \<le> last xs" by simp
    then have "x \<le> last xs" by (simp add: request_delay_def)
    with Cons False show ?thesis by auto
  qed
qed

lemma limiter_inv_init: "limiter_inv (MCPManager_init t0) []"
  by (simp add: limiter_inv_def MCPManager_init_def) (rule exI [of _ "t0 - 60"], simp)

lemma limiter_inv_step:
  assumes inv: "limiter_inv s h" and g: "0 \<le> g"
  defines "s1 \<equiv> wait_for_rate_limit (s\<lparr>clock := clock s + g\<rparr>)"
  shows "limiter_inv s1 (h @ [clock s1])"
proof -
  let ?now = "clock s + g"
  let ?s0 = "s\<lparr>clock := clock s + g\<rparr>"
  let ?r = "clock s1"
  let ?L = "last_request_time s"
  let ?q = "filter (\<lambda>t. ?now - t < 60) (request_queue s)"
  from inv obtain c where
        sp: "sorted_wrt (\<lambda>a b. a + request_delay \<le> b) h"
    and le: "\<forall>t \<in> set h. t \<le> ?L \<and> t \<le> clock s"
    and mem: "h \<noteq> [] \<longrightarrow> ?L \<in> set h"
    and c: "c + 60 \<le> clock s" and q: "request_queue s = filter (\<lambda>t. c < t) h"
    and win: "\<forall>r \<in> set h. length (filter (\<lambda>t. r - 60 < t \<and> t \<le> r) h) \<le> max_requests_per_minute"
    by (auto simp: limiter_inv_def)
  have r_now: "?now \<le> ?r" using wfrl_clock_ge [of ?s0] by (simp add: s1_def)
  have r_sp: "?L + request_delay \<le> ?r" using wfrl_spacing [of ?s0] by (simp add: s1_def)
  have r_sp8: "?L + 8 \<le> ?r" using r_sp by (simp add: request_delay_def)
  have queue1: "request_queue s1 = ?q @ [?r]" using wfrl_queue [of ?s0] by (simp add: s1_def)
  have last1: "last_request_time s1 = ?r" using wfrl_last [of ?s0] by (simp add: s1_def)
  let ?c' = "max c (?now - 60)"
  have q_eq: "?q = filter (\<lambda>t. ?c' < t) h"
    unfolding q filter_filter by (rule filter_cong) auto
  have below: "\<forall>t \<in> set h. t < ?r" using le r_sp8 by fastforce
  have 1: "sorted_wrt (\<lambda>a b. a + request_delay \<le> b) (h @ [?r])"
    using sp le r_sp by (fastforce simp: sorted_wrt_append)
  have 2: "\<forall>t \<in> set (h @ [?r]). t \<le> last_request_time s1 \<and> t \<le> clock s1"
    using below by (auto simp: last1 less_imp_le)
  have 3: "h @ [?r] \<noteq> [] \<longrightarrow> last_request_time s1 \<in> set (h @ [?r])"
    by (simp add: last1)
  have c'_lt: "?c' < ?r" using c g r_now by auto
  have 4: "\<exists>c. c + 60 \<le> clock s1 \<and> request_queue s1 = filter (\<lambda>t. c < t) (h @ [?r])"
  proof (intro exI conjI)
    show "?c' + 60 \<le> clock s1" using c g r_now by auto
    show "request_queue s1 = filter (\<lambda>t. ?c' < t) (h @ [?r])"
      using c'_lt by (simp add: queue1 q_eq)
  qed
  have new_window: "length (filter (\<lambda>t. ?r - 60 < t \<and> t \<le> ?r) h) < max_requests_per_minute"
  proof (cases "max_requests_per_minute \<le> length ?q")
    case False
    have "length (filter (\<lambda>t. ?r - 60 < t \<and> t \<le> ?r) h) \<le> length (filter (\<lambda>t. ?c' < t) h)"
      using c g r_now by (intro length_filter_mono) auto
    with False show ?thesis by (simp add: q_eq)
  next
    case True
    then have ne: "?q \<noteq> []" by (auto simp: max_requests_per_minute_def)
    then obtain x qs where xqs: "?q = x # qs" by (cases ?q) auto
    have "hd ?q + 70 \<le> clock (wait_for_rate_limit ?s0)"
      using wfrl_window [of ?s0] True by simp
    then have far: "x + 70 \<le> ?r" by (simp add: xqs s1_def)
    from ne have "h \<noteq> []" by (auto simp: q)
    with mem have Lh: "?L \<in> set h" by simp
    then have L_now: "?L \<le> ?now" using le g by fastforce
    have "length ?q \<le> length (filter (\<lambda>t. ?L - 60 < t \<and> t \<le> ?L) h)"
      unfolding q_eq using le L_now by (intro length_filter_mono) auto
    also have "\<dots> \<le> max_requests_per_minute" using win Lh by blast
    finally have len: "length qs < max_requests_per_minute" by (simp add: xqs)
    have "length (filter (\<lambda>t. ?r - 60 < t \<and> t \<le> ?r) h)
        \<le> length (filter (\<lambda>t. ?c' < t \<and> x < t) h)"
      using c g r_now far by (intro length_filter_mono) auto
    also have "\<dots> = length (filter (\<lambda>t. x < t) ?q)"
      unfolding q_eq filter_filter ..
    also have "\<dots> = length (filter (\<lambda>t. x < t) qs)" by (simp add: xqs)
    also have "\<dots> \<le> length qs" by simp
    finally show ?thesis using len by simp
  qed
  have 5: "\<forall>r \<in> set (h @ [?r]).
      length (filter (\<lambda>t. r - 60 < t \<and> t \<le> r) (h @ [?r])) \<le> max_requests_per_minute"
  proof
    fix r assume "r \<in> set (h @ [?r])"
    then consider "r \<in> set h" | "r = ?r" by auto
    then show "length (filter (\<lambda>t. r - 60 < t \<and> t \<le> r) (h @ [?r])) \<le> max_requests_per_minute"
    proof cases
      case 1
      with below have "r < ?r" by blast
      with win 1 show ?thesis by simp
    next
      case 2
      with new_window show ?thesis by simp
    qed
  qed
  from 1 2 3 4 5 show ?thesis unfolding limiter_inv_def by blast
qed

lemma limiter_inv_run:
  "limiter_inv s h \<Longrightarrow> \<forall>g \<in> set gaps. 0 \<le> g \<Longrightarrow>
   \<exists>s'. limiter_inv s' (h @ rate_limited_calls gaps s)"
proof (induction gaps arbitrary: s h)
  case Nil
  then show ?case by auto
next
  case (Cons g gaps)
  let ?s1 = "wait_for_rate_limit (s\<lparr>clock := clock s + g\<rparr>)"
  have rec: "last (request_queue ?s1) = clock ?s1"
    by (simp add: wfrl_queue)
  from Cons.prems have "limiter_inv ?s1 (h @ [clock ?s1])"
    by (intro limiter_inv_step) auto
  with Cons.IH [of ?s1 "h @ [clock ?s1]"] Cons.prems(2)
  obtain s' where "limiter_inv s' ((h @ [clock ?s1]) @ rate_limited_calls gaps ?s1)"
    by auto
  then show ?case by (auto simp: Let_def rec)
qed

lemma window_any:
  assumes sp: "sorted_wrt (\<lambda>a b. a + request_delay \<le> b) h"
    and win: "\<forall>r \<in> set h. length (filter (\<lambda>t. r - 60 < t \<and> t \<le> r) h) \<le> max_requests_per_minute"
  shows "length (filter (\<lambda>t. a \<le> t \<and> t < a + 60) h) \<le> max_requests_per_minute"
proof (cases "filter (\<lambda>t. a \<le> t \<and> t < a + 60) h = []")
  case True
  then show ?thesis by simp
next
  case False
  let ?F = "filter (\<lambda>t. a \<le> t \<and> t < a + 60) h"
  let ?r = "last ?F"
  from False have rF: "?r \<in> set ?F" by (rule last_in_set)
  then have rh: "?r \<in> set h" and ra: "a \<le> ?r" "?r < a + 60" by auto
  have spF: "sorted_wrt (\<lambda>a b. a + request_delay \<le> b) ?F"
    using sp by (rule sorted_wrt_filter)
  have "length ?F \<le> length (filter (\<lambda>t. ?r - 60 < t \<and> t \<le> ?r) h)"
  proof (intro length_filter_mono)
    fix t assume t: "t \<in> set h" "a \<le> t \<and> t < a + 60"
    then have "t \<in> set ?F" by simp
    with spF have "t \<le> ?r" by (rule spaced_le_last)
    with t ra show "?r - 60 < t \<and> t \<le> ?r" by auto
  qed
  also have "\<dots> \<le> max_requests_per_minute" using win rh by blast
  finally show ?thesis .
qed

text \<open>
  Claim C5. Start from a new manager and let the rate limiter be passed any number of
  times, any non-negative time going by before each pass. Then any two recorded calls
  are at least \<open>request_delay\<close> (8 seconds) apart, and any interval of 60 seconds
  \<open>[a, a + 60)\<close> holds at most \<open>max_requests_per_minute\<close> (5) recorded calls. The
  passes follow one another because \<open>call_tool_with_retry\<close> holds the global request
  lock around them; a sleep is taken to last as long as requested.
\<close>

theorem rate_limiter_window_and_spacing:
  assumes "\<forall>g \<in> set gaps. 0 \<le> g"
  shows "sorted_wrt (\<lambda>a b. a + request_delay \<le> b) (rate_limited_calls gaps (MCPManager_init t0))
     \<and> length (filter (\<lambda>t. a \<le> t \<and> t < a + 60) (rate_limited_calls gaps (MCPManager_init t0)))
         \<le> max_requests_per_minute"
proof -
  from limiter_inv_run [OF limiter_inv_init assms, of t0]
  obtain s' where "limiter_inv s' (rate_limited_calls gaps (MCPManager_init t0))" by auto
  then have sp: "sorted_wrt (\<lambda>a b. a + request_delay \<le> b) (rate_limited_calls gaps (MCPManager_init t0))"
    and win: "\<forall>r \<in> set (rate_limited_calls gaps (MCPManager_init t0)).
       length (filter (\<lambda>t. r - 60 < t \<and> t \<le> r) (rate_limited_calls gaps (MCPManager_init t0)))
         \<le> max_requests_per_minute"
    by (auto simp: limiter_inv_def)
  from sp window_any [OF sp win] show ?thesis by blast
qed

text \<open>
  Six passes in a row from a new manager at time 1000: the first five are spaced by the
  minimum delay, and the sixth waits until the oldest call has left the window, plus
  the buffer of 10 seconds.
\<close>

lemma rate_limited_calls_step:
  "rate_limited_calls (g # gs) s =
     clock (wait_for_rate_limit (s\<lparr>clock := clock s + g\<rparr>))
       # rate_limited_calls gs (wait_for_rate_limit (s\<lparr>clock := clock s + g\<rparr>))"
  by (simp add: Let_def wfrl_queue)

lemmas pass_defs = wait_for_rate_limit_def sleep_def max_requests_per_minute_def
  request_delay_def limiter_state_def MCPManager_init_def Let_def

lemma pass_1:
  "wait_for_rate_limit (MCPManager_init 1000\<lparr>clock := clock (MCPManager_init 1000) + 0\<rparr>)
     = limiter_state [1000] 1000"
  by (simp add: pass_defs)

lemma pass_2:
  "wait_for_rate_limit (limiter_state [1000] 1000\<lparr>clock := 1000 + 0\<rparr>)
     = limiter_state [1000, 1008] 1008"
  by (simp add: pass_defs)

lemma pass_3:
  "wait_for_rate_limit (limiter_state [1000, 1008] 1008
       \<lparr>clock := 1008 + 0\<rparr>)
     = limiter_state [1000, 1008, 1016] 1016"
  by (simp add: pass_defs)

lemma pass_4:
  "wait_for_rate_limit (limiter_state [1000, 1008, 1016] 1016
       \<lparr>clock := 1016 + 0\<rparr>)
     = limiter_state [1000, 1008, 1016, 1024] 1024"
  by (simp add: pass_defs)

lemma pass_5:
  "wait_for_rate_limit (limiter_state [1000, 1008, 1016, 1024] 1024
       \<lparr>clock := 1024 + 0\<rparr>)
     = limiter_state [1000, 1008, 1016, 1024, 1032] 1032"
  by (simp add: pass_defs)

lemma pass_6:
  "wait_for_rate_limit (limiter_state [1000, 1008, 1016, 1024, 1032] 1032
       \<lparr>clock := 1032 + 0\<rparr>)
     = limiter_state [1000, 1008, 1016, 1024, 1032, 1078] 1078"
  by (simp add: pass_defs)

lemma clock_limiter_state: "clock (limiter_state q t) = t"
  by (simp add: limiter_state_def)

lemma six_passes:
  "rate_limited_calls [0, 0, 0, 0, 0, 0] (MCPManager_init 1000)
     = [1000, 1008, 1016, 1024, 1032, 1078]"
  by (simp only: rate_limited_calls_step rate_limited_calls.simps(1)
                 pass_1 pass_2 pass_3 pass_4 pass_5 pass_6 clock_limiter_state)

theorem rate_limiter_window_and_spacing_witness:
  "rate_limited_calls [0, 0, 0, 0, 0, 0] (MCPManager_init 1000)
     = [1000, 1008, 1016, 1024, 1032, 1078]
   \<and> sorted_wrt (\<lambda>a b. a + request_delay \<le> b)
         (rate_limited_calls [0, 0, 0, 0, 0, 0] (MCPManager_init 1000))
   \<and> length (filter (\<lambda>t. 1000 \<le> t \<and> t < 1000 + 60)
               (rate_limited_calls [0, 0, 0, 0, 0, 0] (MCPManager_init 1000)))
        \<le> max_requests_per_minute"
proof -
  have gaps: "\<forall>g \<in> set [0, 0, 0, 0, 0, 0 :: seconds]. 0 \<le> g" by simp
  from rate_limiter_window_and_spacing [OF gaps, of 1000 1000] six_passes
  show ?thesis by blast
qed

section \<open>Properties of the circuit breaker and of the retry loop\<close>

lemma classify_429: "classify ''429 Too Many Requests'' = RateLimited" by code_simp
lemma classify_timeout: "classify ''Read timeout'' = Transient" by code_simp
lemma classify_boom: "classify ''boom'' = Permanent" by code_simp

lemma attempts_continue:
  "try_call up s = (Inl msg, s1) \<Longrightarrow> on_failure attempt mr c msg s1 = (Continue, c', s2) \<Longrightarrow>
   attempts up mr (Suc k) attempt c s = attempts up mr k (Suc attempt) c' s2"
  by simp

lemma attempts_return:
  "try_call up s = (Inl msg, s1) \<Longrightarrow> on_failure attempt mr c msg s1 = (Return v, c', s2) \<Longrightarrow>
   attempts up mr (Suc k) attempt c s = (v, s2)"
  by simp

lemma attempts_success:
  "try_call up s = (Inr data, s1) \<Longrightarrow>
   attempts up mr (Suc k) attempt c s = (data, s1\<lparr>circuit_breaker_open := False\<rparr>)"
  by (cases "circuit_breaker_open s1") simp_all

lemma try_call_result: "fst (try_call up s) = result (up (upstream_calls s))"
  by (simp add: try_call_def Let_def wfrl_unchanged)

lemma try_call_calls: "upstream_calls (snd (try_call up s)) = Suc (upstream_calls s)"
  by (simp add: try_call_def Let_def wfrl_unchanged)

lemma try_call_breaker:
  "circuit_breaker_open (snd (try_call up s)) = circuit_breaker_open s"
  "circuit_breaker_opened_at (snd (try_call up s)) = circuit_breaker_opened_at s"
  by (simp_all add: try_call_def Let_def wfrl_unchanged)

lemma on_failure_calls: "upstream_calls (snd (snd (on_failure attempt mr c msg s))) = upstream_calls s"
  by (simp add: on_failure_def sleep_def open_circuit_breaker_def Let_def split: failure_kind.splits)

lemma on_failure_return: "fst (on_failure attempt mr c msg s) = Return v \<Longrightarrow> v = PNone"
  by (auto simp add: on_failure_def Let_def split: failure_kind.splits if_splits)

lemma on_failure_counter:
  "fst (snd (on_failure attempt mr c msg s)) = (if classify msg = RateLimited then c + 1 else c)"
  by (simp add: on_failure_def Let_def split: failure_kind.splits)

lemma on_failure_rate_limited_first:
  "classify msg = RateLimited \<Longrightarrow> c = 0 \<Longrightarrow>
   on_failure attempt mr c msg s = (Continue, 1, s\<lparr>clock := clock s + 20 * 2 ^ attempt\<rparr>)"
  by (simp add: on_failure_def sleep_def Let_def max_def)

lemma on_failure_rate_limited_opens:
  "classify msg = RateLimited \<Longrightarrow> c + 1 \<ge> 2 \<Longrightarrow>
   on_failure attempt mr c msg s =
     (Return PNone, c + 1, s\<lparr>circuit_breaker_open := True, circuit_breaker_opened_at := clock s\<rparr>)"
  by (simp add: on_failure_def open_circuit_breaker_def Let_def)

lemma on_failure_transient:
  "classify msg = Transient \<Longrightarrow>
   on_failure attempt mr c msg s = (Continue, c, s\<lparr>clock := clock s + (real attempt + 1) * 5\<rparr>)"
  by (simp add: on_failure_def sleep_def max_def)

lemma on_failure_permanent:
  "classify msg = Permanent \<Longrightarrow> Suc attempt < mr \<Longrightarrow>
   on_failure attempt mr c msg s = (Continue, c, s\<lparr>clock := clock s + 3\<rparr>)"
  by (auto simp add: on_failure_def sleep_def max_def)

lemma on_failure_permanent_last:
  "classify msg = Permanent \<Longrightarrow> \<not> Suc attempt < mr \<Longrightarrow>
   on_failure attempt mr c msg s = (Continue, c, s)"
  by (auto simp add: on_failure_def sleep_def max_def)

lemma attempts_all_fail:
  "\<forall>i < k. isl (result (up (upstream_calls s + i))) \<Longrightarrow> fst (attempts up mr k attempt c s) = PNone"
proof (induction k arbitrary: attempt c s)
  case 0
  then show ?case by simp
next
  case (Suc k)
  obtain r s1 where tc: "try_call up s = (r, s1)" by (cases "try_call up s")
  from tc have r: "r = result (up (upstream_calls s))" and calls: "upstream_calls s1 = Suc (upstream_calls s)"
    using try_call_result [of up s] try_call_calls [of up s] by simp_all
  from Suc.prems have "isl r" unfolding r by (metis add.right_neutral zero_less_Suc)
  then obtain msg where msg: "r = Inl msg" by (cases r) auto
  obtain ctl c' s2 where ofl: "on_failure attempt mr c msg s1 = (ctl, c', s2)"
    by (cases "on_failure attempt mr c msg s1")
  show ?case
  proof (cases ctl)
    case (Return v)
    with ofl on_failure_return [of attempt mr c msg s1 v] have "v = PNone" by simp
    with tc msg ofl Return show ?thesis by simp
  next
    case Continue
    from ofl on_failure_calls [of attempt mr c msg s1] calls
    have calls2: "upstream_calls s2 = Suc (upstream_calls s)" by simp
    have "\<forall>i < k. isl (result (up (upstream_calls s2 + i)))"
      using Suc.prems calls2 by (metis Suc_less_eq add_Suc add_Suc_right)
    then have "fst (attempts up mr k (Suc attempt) c' s2) = PNone" by (rule Suc.IH)
    with tc msg ofl Continue show ?thesis by simp
  qed
qed


lemma check_open:
  "circuit_breaker_open s \<Longrightarrow> clock s - circuit_breaker_opened_at s \<le> circuit_breaker_timeout \<Longrightarrow>
   check_circuit_breaker s = (True, s)"
  by (simp add: check_circuit_breaker_def)

lemma check_expired:
  "circuit_breaker_open s \<Longrightarrow> clock s - circuit_breaker_opened_at s > circuit_breaker_timeout \<Longrightarrow>
   check_circuit_breaker s = (False, s\<lparr>circuit_breaker_open := False\<rparr>)"
  by (simp add: check_circuit_breaker_def)

lemma check_closed:
  "\<not> circuit_breaker_open s \<Longrightarrow> check_circuit_breaker s = (False, s)"
  by (simp add: check_circuit_breaker_def)

lemma call_while_open:
  "circuit_breaker_open s \<Longrightarrow> clock s - circuit_breaker_opened_at s \<le> circuit_breaker_timeout \<Longrightarrow>
   call_tool_with_retry up mr s = (PNone, s)"
  by (simp add: call_tool_with_retry_def check_open)

lemma sequential_calls_while_open:
  "circuit_breaker_open s \<Longrightarrow> \<forall>g \<in> set gaps. 0 \<le> g \<Longrightarrow>
   clock s + sum_list gaps - circuit_breaker_opened_at s \<le> circuit_breaker_timeout \<Longrightarrow>
   sequential_calls up mr gaps s = s\<lparr>clock := clock s + sum_list gaps\<rparr>"
proof (induction gaps arbitrary: s)
  case Nil
  then show ?case by simp
next
  case (Cons g gaps)
  let ?s1 = "s\<lparr>clock := clock s + g\<rparr>"
  have nonneg: "0 \<le> sum_list gaps" using Cons.prems(2) by (simp add: sum_list_nonneg)
  with Cons.prems have "call_tool_with_retry up mr ?s1 = (PNone, ?s1)"
    by (intro call_while_open) auto
  moreover have "sequential_calls up mr gaps ?s1 = ?s1\<lparr>clock := clock ?s1 + sum_list gaps\<rparr>"
    using Cons.prems by (intro Cons.IH) (auto simp: add.assoc)
  ultimately show ?case by (simp add: add.assoc)
qed


lemma check_calls: "upstream_calls (snd (check_circuit_breaker s)) = upstream_calls s"
  by (simp add: check_circuit_breaker_def Let_def)

lemma call_all_fail:
  assumes "\<forall>i < mr. isl (result (up (upstream_calls s + i)))"
  shows "fst (call_tool_with_retry up mr s) = PNone"
proof (cases "check_circuit_breaker s")
  case (Pair b s1)
  then have "upstream_calls s1 = upstream_calls s" using check_calls [of s] by simp
  with assms have "fst (attempts up mr mr 0 0 s1) = PNone" by (intro attempts_all_fail) simp
  with Pair show ?thesis
    by (cases b) (simp_all add: call_tool_with_retry_def call_tool_with_retry_locked_def)
qed


lemma try_call_pair: "try_call up s = (fst (try_call up s), snd (try_call up s))"
  by simp

lemmas try_defs = try_call_def wait_for_rate_limit_def sleep_def max_requests_per_minute_def
  request_delay_def Let_def

lemma run_a0:
  "try_call up_429_then_ok (MCPManager_init 1000) =
     (Inl ''429 Too Many Requests'',
      \<lparr>request_queue = [1000], last_request_time = 1000, circuit_breaker_open = False,
       circuit_breaker_opened_at = 0, clock = 1001, upstream_calls = 1\<rparr>)"
  by (simp add: try_defs up_429_then_ok_def MCPManager_init_def)

lemma run_a1:
  "try_call up_429_then_ok
     \<lparr>request_queue = [1000], last_request_time = 1000, circuit_breaker_open = False,
      circuit_breaker_opened_at = 0, clock = 1021, upstream_calls = 1\<rparr> =
     (Inl ''429 Too Many Requests'',
      \<lparr>request_queue = [1000, 1021], last_request_time = 1021, circuit_breaker_open = False,
       circuit_breaker_opened_at = 0, clock = 1022, upstream_calls = 2\<rparr>)"
  by (simp add: try_defs up_429_then_ok_def)

lemma run_a:
  "call_tool_with_retry_locked up_429_then_ok 3 (MCPManager_init 1000) = (PNone, breaker_open_state)"
proof -
  have "attempts up_429_then_ok 3 (Suc (Suc (Suc 0))) 0 0 (MCPManager_init 1000) =
      attempts up_429_then_ok 3 (Suc (Suc 0)) (Suc 0) 1
        \<lparr>request_queue = [1000], last_request_time = 1000, circuit_breaker_open = False,
         circuit_breaker_opened_at = 0, clock = 1021, upstream_calls = 1\<rparr>"
    by (rule attempts_continue [OF run_a0])
       (simp add: on_failure_rate_limited_first classify_429)
  also have "\<dots> = (PNone, breaker_open_state)"
    by (rule attempts_return [OF run_a1])
       (simp add: on_failure_rate_limited_opens classify_429 breaker_open_state_def)
  finally show ?thesis
    by (simp add: call_tool_with_retry_locked_def numeral_3_eq_3)
qed

lemma run_b0:
  "try_call up_429_then_ok breaker_open_state =
     (Inr (PDict [(''ok'', PBool True)]),
      \<lparr>request_queue = [1000, 1021, 1029], last_request_time = 1029, circuit_breaker_open = True,
       circuit_breaker_opened_at = 1022, clock = 1030, upstream_calls = 3\<rparr>)"
  by (simp add: try_defs up_429_then_ok_def breaker_open_state_def)

lemma run_b:
  "call_tool_with_retry_locked up_429_then_ok 3 breaker_open_state =
     (PDict [(''ok'', PBool True)],
      \<lparr>request_queue = [1000, 1021, 1029], last_request_time = 1029, circuit_breaker_open = False,
       circuit_breaker_opened_at = 1022, clock = 1030, upstream_calls = 3\<rparr>)"
proof -
  have "attempts up_429_then_ok 3 (Suc (Suc (Suc 0))) 0 0 breaker_open_state =
     (PDict [(''ok'', PBool True)],
      \<lparr>request_queue = [1000, 1021, 1029], last_request_time = 1029, circuit_breaker_open = True,
       circuit_breaker_opened_at = 1022, clock = 1030, upstream_calls = 3\<rparr>
        \<lparr>circuit_breaker_open := False\<rparr>)"
    by (rule attempts_success [OF run_b0])
  then show ?thesis
    by (simp add: call_tool_with_retry_locked_def numeral_3_eq_3)
qed

text \<open>
  Claim C4, counterexample. Two calls pass the breaker check at time 1000, when the
  breaker is closed; the second then waits for the global request lock. The first call
  is answered 429 twice and opens the breaker at 1022. The second call now runs its
  locked part: its tool call succeeds at 1030 and resets the breaker. Eight seconds
  after the opening the breaker is closed, and a check reports so.
\<close>

theorem breaker_closed_by_queued_call_counterexample:
  "fst (check_circuit_breaker (MCPManager_init 1000)) = False
   \<and> snd (call_tool_with_retry_locked up_429_then_ok 3 (MCPManager_init 1000)) = breaker_open_state
   \<and> circuit_breaker_open breaker_open_state
   \<and> circuit_breaker_opened_at breaker_open_state = 1022
   \<and> clock (snd (call_tool_with_retry_locked up_429_then_ok 3 breaker_open_state)) = 1030
   \<and> 1030 - 1022 < circuit_breaker_timeout
   \<and> \<not> circuit_breaker_open (snd (call_tool_with_retry_locked up_429_then_ok 3 breaker_open_state))
   \<and> fst (check_circuit_breaker (snd (call_tool_with_retry_locked up_429_then_ok 3 breaker_open_state)))
       = False"
proof -
  have "fst (check_circuit_breaker (MCPManager_init 1000)) = False"
    by (simp add: check_circuit_breaker_def MCPManager_init_def)
  moreover have "circuit_breaker_open breaker_open_state"
    and "circuit_breaker_opened_at breaker_open_state = 1022"
    by (simp_all add: breaker_open_state_def)
  moreover have "1030 - 1022 < circuit_breaker_timeout"
    by (simp add: circuit_breaker_timeout_def)
  ultimately show ?thesis
    by (simp add: run_a run_b check_circuit_breaker_def)
qed

text \<open>
  Claim C4, as amended. Only a rate-limited failure increments \<open>consecutive_429s\<close>.
  When the counter reaches 2 the call returns \<open>None\<close> at once with the breaker open and
  \<open>opened_at\<close> set to the current time. An open breaker is reported open by every check
  made while \<open>now - opened_at \<le> 300\<close>, and is closed by the first check made when
  \<open>now - opened_at > 300\<close>. Calls that start while the breaker is open and the cooldown
  has not run out change nothing, so the breaker stays open through them. The breaker is
  closed before the cooldown has run out only by a call that had passed the check before
  the opening and whose tool call then succeeds: a success resets the breaker.
\<close>

theorem circuit_breaker_opening_and_cooldown:
  "fst (snd (on_failure attempt mr c msg s)) = (if classify msg = RateLimited then c + 1 else c)
   \<and> (fst (try_call up s) = Inl msg \<and> classify msg = RateLimited \<and> c + 1 \<ge> 2
      \<longrightarrow> attempts up mr (Suc k) attempt c s
            = (PNone, (snd (try_call up s))
                        \<lparr>circuit_breaker_open := True,
                         circuit_breaker_opened_at := clock (snd (try_call up s))\<rparr>))
   \<and> (circuit_breaker_open s \<and> clock s - circuit_breaker_opened_at s \<le> circuit_breaker_timeout
      \<longrightarrow> check_circuit_breaker s = (True, s))
   \<and> (circuit_breaker_open s \<and> clock s - circuit_breaker_opened_at s > circuit_breaker_timeout
      \<longrightarrow> check_circuit_breaker s = (False, s\<lparr>circuit_breaker_open := False\<rparr>))
   \<and> (circuit_breaker_open s \<and> (\<forall>g \<in> set gaps. 0 \<le> g)
        \<and> clock s + sum_list gaps - circuit_breaker_opened_at s \<le> circuit_breaker_timeout
      \<longrightarrow> sequential_calls up mr gaps s = s\<lparr>clock := clock s + sum_list gaps\<rparr>)
   \<and> (fst (try_call up s) = Inr data
      \<longrightarrow> attempts up mr (Suc k) attempt c s
            = (data, (snd (try_call up s))\<lparr>circuit_breaker_open := False\<rparr>))"
proof (intro conjI impI)
  show "fst (snd (on_failure attempt mr c msg s)) = (if classify msg = RateLimited then c + 1 else c)"
    by (rule on_failure_counter)
next
  assume a: "fst (try_call up s) = Inl msg \<and> classify msg = RateLimited \<and> c + 1 \<ge> 2"
  then have tc: "try_call up s = (Inl msg, snd (try_call up s))"
    by (metis try_call_pair)
  from a show "attempts up mr (Suc k) attempt c s
      = (PNone, (snd (try_call up s))
                  \<lparr>circuit_breaker_open := True,
                   circuit_breaker_opened_at := clock (snd (try_call up s))\<rparr>)"
    using attempts_return
            [OF tc on_failure_rate_limited_opens [of msg c attempt mr "snd (try_call up s)"]]
    by simp
next
  assume "circuit_breaker_open s \<and> clock s - circuit_breaker_opened_at s \<le> circuit_breaker_timeout"
  then show "check_circuit_breaker s = (True, s)" by (simp add: check_open)
next
  assume "circuit_breaker_open s \<and> clock s - circuit_breaker_opened_at s > circuit_breaker_timeout"
  then show "check_circuit_breaker s = (False, s\<lparr>circuit_breaker_open := False\<rparr>)"
    by (simp add: check_expired)
next
  assume "circuit_breaker_open s \<and> (\<forall>g \<in> set gaps. 0 \<le> g)
      \<and> clock s + sum_list gaps - circuit_breaker_opened_at s \<le> circuit_breaker_timeout"
  then show "sequential_calls up mr gaps s = s\<lparr>clock := clock s + sum_list gaps\<rparr>"
    by (intro sequential_calls_while_open) simp_all
next
  assume a: "fst (try_call up s) = Inr data"
  then have tc: "try_call up s = (Inr data, snd (try_call up s))"
    by (metis try_call_pair)
  show "attempts up mr (Suc k) attempt c s
      = (data, (snd (try_call up s))\<lparr>circuit_breaker_open := False\<rparr>)"
    by (rule attempts_success [OF tc])
qed


theorem circuit_breaker_opening_and_cooldown_witness:
  "attempts up_429_then_ok 3 (Suc 1) 1 1 after_first_429
     = (PNone, (snd (try_call up_429_then_ok after_first_429))
                 \<lparr>circuit_breaker_open := True,
                  circuit_breaker_opened_at := clock (snd (try_call up_429_then_ok after_first_429))\<rparr>)
   \<and> check_circuit_breaker breaker_open_state = (True, breaker_open_state)
   \<and> check_circuit_breaker (breaker_open_state\<lparr>clock := 1400\<rparr>)
       = (False, breaker_open_state\<lparr>clock := 1400, circuit_breaker_open := False\<rparr>)
   \<and> sequential_calls up_429_then_ok 3 [100, 100] breaker_open_state
       = breaker_open_state\<lparr>clock := clock breaker_open_state + sum_list [100, 100]\<rparr>
   \<and> attempts up_429_then_ok 3 (Suc 2) 0 0 breaker_open_state
       = (PDict [(''ok'', PBool True)],
          (snd (try_call up_429_then_ok breaker_open_state))\<lparr>circuit_breaker_open := False\<rparr>)"
proof -
  have second: "fst (try_call up_429_then_ok after_first_429) = Inl ''429 Too Many Requests''
      \<and> classify ''429 Too Many Requests'' = RateLimited \<and> (1::nat) + 1 \<ge> 2"
    using run_a1 by (simp add: after_first_429_def classify_429)
  have inside: "circuit_breaker_open breaker_open_state
      \<and> clock breaker_open_state - circuit_breaker_opened_at breaker_open_state
          \<le> circuit_breaker_timeout"
    by (simp add: breaker_open_state_def circuit_breaker_timeout_def)
  have outside: "circuit_breaker_open (breaker_open_state\<lparr>clock := 1400\<rparr>)
      \<and> clock (breaker_open_state\<lparr>clock := 1400\<rparr>)
          - circuit_breaker_opened_at (breaker_open_state\<lparr>clock := 1400\<rparr>)
          > circuit_breaker_timeout"
    by (simp add: breaker_open_state_def circuit_breaker_timeout_def)
  have later: "circuit_breaker_open breaker_open_state \<and> (\<forall>g \<in> set [100, 100 :: seconds]. 0 \<le> g)
      \<and> clock breaker_open_state + sum_list [100, 100]
          - circuit_breaker_opened_at breaker_open_state \<le> circuit_breaker_timeout"
    by (simp add: breaker_open_state_def circuit_breaker_timeout_def)
  have ok: "fst (try_call up_429_then_ok breaker_open_state) = Inr (PDict [(''ok'', PBool True)])"
    using run_b0 by simp
  show ?thesis
    using circuit_breaker_opening_and_cooldown
            [where up = up_429_then_ok and s = after_first_429 and c = 1
               and msg = "''429 Too Many Requests''" and mr = 3 and k = 1 and attempt = 1]
          circuit_breaker_opening_and_cooldown
            [where up = up_429_then_ok and s = breaker_open_state and c = 0 and mr = 3 and k = 2
               and attempt = 0 and gaps = "[100, 100]" and data = "PDict [(''ok'', PBool True)]"]
          circuit_breaker_opening_and_cooldown
            [where s = "breaker_open_state\<lparr>clock := 1400\<rparr>"]
          second inside outside later ok
    by (metis (no_types, lifting))
qed



text \<open>
  Claim C7. When attempt number \<open>attempt\<close> (counted from 0) fails and the loop goes on,
  the next attempt starts from the manager as the failed tool call left it, with the
  clock advanced by exactly \<open>20 * 2 ^ attempt\<close> seconds after a first rate-limited
  failure, by \<open>(attempt + 1) * 5\<close> seconds after a timeout or connection failure, and
  by 3 seconds after any other failure that is not on the last attempt. A failure that
  is not rate-limited leaves the counter and the breaker as they were.
\<close>

theorem backoff_delay_by_failure_kind:
  "(fst (try_call up s) = Inl msg \<and> classify msg = RateLimited \<and> c = 0
      \<longrightarrow> attempts up mr (Suc k) attempt c s
            = attempts up mr k (Suc attempt) 1
                ((snd (try_call up s))\<lparr>clock := clock (snd (try_call up s)) + 20 * 2 ^ attempt\<rparr>))
   \<and> (fst (try_call up s) = Inl msg \<and> classify msg = Transient
      \<longrightarrow> attempts up mr (Suc k) attempt c s
            = attempts up mr k (Suc attempt) c
                ((snd (try_call up s))
                   \<lparr>clock := clock (snd (try_call up s)) + (real attempt + 1) * 5\<rparr>))
   \<and> (fst (try_call up s) = Inl msg \<and> classify msg = Permanent \<and> Suc attempt < mr
      \<longrightarrow> attempts up mr (Suc k) attempt c s
            = attempts up mr k (Suc attempt) c
                ((snd (try_call up s))\<lparr>clock := clock (snd (try_call up s)) + 3\<rparr>))
   \<and> (classify msg \<noteq> RateLimited
      \<longrightarrow> fst (snd (on_failure attempt mr c msg s)) = c
          \<and> circuit_breaker_open (snd (snd (on_failure attempt mr c msg s)))
              = circuit_breaker_open s
          \<and> circuit_breaker_opened_at (snd (snd (on_failure attempt mr c msg s)))
              = circuit_breaker_opened_at s)"
proof (intro conjI impI)
  assume a: "fst (try_call up s) = Inl msg \<and> classify msg = RateLimited \<and> c = 0"
  then have tc: "try_call up s = (Inl msg, snd (try_call up s))" by (metis try_call_pair)
  from a show "attempts up mr (Suc k) attempt c s
      = attempts up mr k (Suc attempt) 1
          ((snd (try_call up s))\<lparr>clock := clock (snd (try_call up s)) + 20 * 2 ^ attempt\<rparr>)"
    using attempts_continue
            [OF tc on_failure_rate_limited_first [of msg c attempt mr "snd (try_call up s)"]]
    by simp
next
  assume a: "fst (try_call up s) = Inl msg \<and> classify msg = Transient"
  then have tc: "try_call up s = (Inl msg, snd (try_call up s))" by (metis try_call_pair)
  from a show "attempts up mr (Suc k) attempt c s
      = attempts up mr k (Suc attempt) c
          ((snd (try_call up s))\<lparr>clock := clock (snd (try_call up s)) + (real attempt + 1) * 5\<rparr>)"
    using attempts_continue
            [OF tc on_failure_transient [of msg attempt mr c "snd (try_call up s)"]]
    by simp
next
  assume a: "fst (try_call up s) = Inl msg \<and> classify msg = Permanent \<and> Suc attempt < mr"
  then have tc: "try_call up s = (Inl msg, snd (try_call up s))" by (metis try_call_pair)
  from a show "attempts up mr (Suc k) attempt c s
      = attempts up mr k (Suc attempt) c
          ((snd (try_call up s))\<lparr>clock := clock (snd (try_call up s)) + 3\<rparr>)"
    using attempts_continue
            [OF tc on_failure_permanent [of msg attempt mr c "snd (try_call up s)"]]
    by simp
next
  assume a: "classify msg \<noteq> RateLimited"
  then show "fst (snd (on_failure attempt mr c msg s)) = c"
    by (simp add: on_failure_counter)
  from a show "circuit_breaker_open (snd (snd (on_failure attempt mr c msg s)))
      = circuit_breaker_open s"
    by (cases "classify msg") (simp_all add: on_failure_def sleep_def)
  from a show "circuit_breaker_opened_at (snd (snd (on_failure attempt mr c msg s)))
      = circuit_breaker_opened_at s"
    by (cases "classify msg") (simp_all add: on_failure_def sleep_def)
qed

lemma run_t0: "fst (try_call up_timeout (MCPManager_init 1000)) = Inl ''Read timeout''"
  by (simp add: try_call_result up_timeout_def)

lemma run_o0: "fst (try_call up_other (MCPManager_init 1000)) = Inl ''boom''"
  by (simp add: try_call_result up_other_def)

theorem backoff_delay_by_failure_kind_witness:
  "attempts up_429_then_ok 3 (Suc 2) 0 0 (MCPManager_init 1000)
     = attempts up_429_then_ok 3 2 (Suc 0) 1
         ((snd (try_call up_429_then_ok (MCPManager_init 1000)))
            \<lparr>clock := clock (snd (try_call up_429_then_ok (MCPManager_init 1000))) + 20 * 2 ^ 0\<rparr>)
   \<and> attempts up_timeout 3 (Suc 2) 0 0 (MCPManager_init 1000)
     = attempts up_timeout 3 2 (Suc 0) 0
         ((snd (try_call up_timeout (MCPManager_init 1000)))
            \<lparr>clock := clock (snd (try_call up_timeout (MCPManager_init 1000))) + (real 0 + 1) * 5\<rparr>)
   \<and> attempts up_other 3 (Suc 2) 0 0 (MCPManager_init 1000)
     = attempts up_other 3 2 (Suc 0) 0
         ((snd (try_call up_other (MCPManager_init 1000)))
            \<lparr>clock := clock (snd (try_call up_other (MCPManager_init 1000))) + 3\<rparr>)
   \<and> fst (snd (on_failure 0 3 0 ''boom'' (MCPManager_init 1000))) = 0
   \<and> circuit_breaker_open (snd (snd (on_failure 0 3 0 ''boom'' (MCPManager_init 1000))))
       = circuit_breaker_open (MCPManager_init 1000)
   \<and> circuit_breaker_opened_at (snd (snd (on_failure 0 3 0 ''boom'' (MCPManager_init 1000))))
       = circuit_breaker_opened_at (MCPManager_init 1000)"
proof -
  have limited: "fst (try_call up_429_then_ok (MCPManager_init 1000)) = Inl ''429 Too Many Requests''
      \<and> classify ''429 Too Many Requests'' = RateLimited \<and> (0::nat) = 0"
    using run_a0 by (simp add: classify_429)
  have transient: "fst (try_call up_timeout (MCPManager_init 1000)) = Inl ''Read timeout''
      \<and> classify ''Read timeout'' = Transient"
    by (simp add: run_t0 classify_timeout)
  have permanent: "fst (try_call up_other (MCPManager_init 1000)) = Inl ''boom''
      \<and> classify ''boom'' = Permanent \<and> Suc 0 < 3"
    by (simp add: run_o0 classify_boom)
  have other: "classify ''boom'' \<noteq> RateLimited" by (simp add: classify_boom)
  show ?thesis
    using backoff_delay_by_failure_kind
            [where up = up_429_then_ok and s = "MCPManager_init 1000" and c = 0
               and msg = "''429 Too Many Requests''" and mr = 3 and k = 2 and attempt = 0]
          backoff_delay_by_failure_kind
            [where up = up_timeout and s = "MCPManager_init 1000" and c = 0
               and msg = "''Read timeout''" and mr = 3 and k = 2 and attempt = 0]
          backoff_delay_by_failure_kind
            [where up = up_other and s = "MCPManager_init 1000" and c = 0
               and msg = "''boom''" and mr = 3 and k = 2 and attempt = 0]
          limited transient permanent other
    by (metis (no_types, lifting))
qed

section \<open>Properties of the endpoint\<close>

lemma get_miss:
  assumes "cache m key = None" and "no_persistent_entry m key"
  shows "fst (CacheManager_get now key m) = PNone"
    and "cache (snd (CacheManager_get now key m)) = cache m"
    and "no_persistent_entry (snd (CacheManager_get now key m)) key"
  using assms
  by (auto simp add: CacheManager_get_def no_persistent_entry_def chroma_defs Let_def
           split: option.splits sum.splits)

lemma get_stale_miss:
  assumes "cache m key = None" and "no_persistent_entry m key"
  shows "fst (CacheManager_get_stale now key m) = PNone"
    and "cache (snd (CacheManager_get_stale now key m)) = cache m"
  using assms
  by (auto simp add: CacheManager_get_stale_def no_persistent_entry_def chroma_defs Let_def
           split: option.splits sum.splits)

lemma cache_logs_fields [simp]:
  "cache (cache_logs e m) = cache m"
  "chroma_cache (cache_logs e m) = chroma_cache m"
  "no_persistent_entry (cache_logs e m) key = no_persistent_entry m key"
  by (simp_all add: cache_logs_def no_persistent_entry_def)

lemma fetch_no_data:
  assumes hot: "cache (cache_manager a) key = None"
    and cold: "no_persistent_entry (cache_manager a) key"
    and none: "\<not> truthy (fst (call_tool_with_retry up 3 (mcp_manager a)))"
  shows "fst (fetch_data build up key a) = empty_response"
    and "cache (cache_manager (snd (fetch_data build up key a))) key
          = Some (empty_response, clock (mcp_manager (snd (fetch_data build up key a))), 60)"
proof -
  obtain data mcp1 where call: "call_tool_with_retry up 3 (mcp_manager a) = (data, mcp1)"
    by (cases "call_tool_with_retry up 3 (mcp_manager a)")
  with none have falsy: "\<not> truthy data" by simp
  obtain stale cm1 where st: "CacheManager_get_stale (clock mcp1) key (cache_manager a) = (stale, cm1)"
    by (cases "CacheManager_get_stale (clock mcp1) key (cache_manager a)")
  with get_stale_miss [OF hot cold, of "clock mcp1"] have stale: "stale = PNone" by simp
  have res: "fetch_data build up key a =
      (empty_response,
       a\<lparr>mcp_manager := mcp1,
         cache_manager := CacheManager_set (clock mcp1) key empty_response 60 cm1\<rparr>)"
    using call falsy st stale by (simp add: fetch_data_def Let_def)
  show "fst (fetch_data build up key a) = empty_response" by (simp add: res)
  show "cache (cache_manager (snd (fetch_data build up key a))) key
          = Some (empty_response, clock (mcp_manager (snd (fetch_data build up key a))), 60)"
    by (simp add: res set_hot)
qed

lemma fetch_exception:
  assumes hot: "cache (cache_manager a) key = None"
    and cold: "no_persistent_entry (cache_manager a) key"
    and some: "truthy (fst (call_tool_with_retry up 3 (mcp_manager a)))"
    and bad: "build (fst (call_tool_with_retry up 3 (mcp_manager a))) = Inl e"
  shows "fst (fetch_data build up key a) = empty_response"
    and "cache (cache_manager (snd (fetch_data build up key a))) key = None"
proof -
  obtain data mcp1 where call: "call_tool_with_retry up 3 (mcp_manager a) = (data, mcp1)"
    by (cases "call_tool_with_retry up 3 (mcp_manager a)")
  with some bad have data: "truthy data" "build data = Inl e" by simp_all
  let ?m = "cache_logs (FetchError e) (cache_manager a)"
  have hot': "cache ?m key = None" and cold': "no_persistent_entry ?m key"
    using hot cold by simp_all
  obtain stale cm1 where st: "CacheManager_get_stale (clock mcp1) key ?m = (stale, cm1)"
    by (cases "CacheManager_get_stale (clock mcp1) key ?m")
  with get_stale_miss [OF hot' cold', of "clock mcp1"]
  have stale: "stale = PNone" and cm1: "cache cm1 = cache ?m" by simp_all
  have res: "fetch_data build up key a = (empty_response, a\<lparr>mcp_manager := mcp1, cache_manager := cm1\<rparr>)"
    using call data st stale by (simp add: fetch_data_def Let_def)
  show "fst (fetch_data build up key a) = empty_response" by (simp add: res)
  show "cache (cache_manager (snd (fetch_data build up key a))) key = None"
    using hot by (simp add: res cm1)
qed

lemma endpoint_miss:
  assumes hot: "cache (cache_manager a) (top_gainers_cache_key vs dur top_coins) = None"
    and cold: "no_persistent_entry (cache_manager a) (top_gainers_cache_key vs dur top_coins)"
  shows "get_top_gainers_losers build up vs dur top_coins a =
     fetch_data build up (top_gainers_cache_key vs dur top_coins)
       (a\<lparr>cache_manager := snd (CacheManager_get (clock (mcp_manager a))
                                   (top_gainers_cache_key vs dur top_coins) (cache_manager a))\<rparr>)"
proof -
  obtain r m1 where g: "CacheManager_get (clock (mcp_manager a))
      (top_gainers_cache_key vs dur top_coins) (cache_manager a) = (r, m1)"
    by (cases "CacheManager_get (clock (mcp_manager a))
      (top_gainers_cache_key vs dur top_coins) (cache_manager a)")
  with get_miss(1) [OF hot cold, of "clock (mcp_manager a)"] have "r = PNone" by simp
  with g show ?thesis by (simp add: get_top_gainers_losers_def Let_def)
qed

lemma endpoint_hit:
  assumes "cache (cache_manager a) (top_gainers_cache_key vs dur top_coins) = Some (empty_response, t, 60)"
    and "clock (mcp_manager a) - t < 60"
  shows "get_top_gainers_losers build up vs dur top_coins a =
     (empty_response,
      a\<lparr>cache_manager := cache_logs (MemoryCacheHit (top_gainers_cache_key vs dur top_coins))
                            (cache_manager a)\<rparr>)"
  using assms
  by (simp add: get_top_gainers_losers_def get_fresh empty_response_def Let_def)


lemma call_success_first:
  assumes "\<not> circuit_breaker_open s" and "result (up (upstream_calls s)) = Inr data"
  shows "fst (call_tool_with_retry up 3 s) = data"
proof -
  from assms(2) have "fst (try_call up s) = Inr data" by (simp add: try_call_result)
  then have tc: "try_call up s = (Inr data, snd (try_call up s))" by (metis try_call_pair)
  have "attempts up 3 (Suc (Suc (Suc 0))) 0 0 s
      = (data, (snd (try_call up s))\<lparr>circuit_breaker_open := False\<rparr>)"
    by (rule attempts_success [OF tc])
  with assms(1) show ?thesis
    by (simp add: call_tool_with_retry_def call_tool_with_retry_locked_def check_closed
                  numeral_3_eq_3)
qed

text \<open>
  Claim C10. Let the hot tier and the persistent tier hold nothing for the key of the
  request. If the upstream fetch returns no data, the endpoint returns the empty
  response and stores it in the hot tier, stamped with the current time and a TTL of 60
  seconds. A request that finds this entry less than 60 seconds old returns the empty
  response from the cache and leaves the manager untouched: no tool call upstream. If
  instead the fetch returns data and building the response raises, the endpoint returns
  the empty response and the hot tier still holds nothing for the key.
\<close>

theorem negative_caching_of_empty_response:
  "(cache (cache_manager a) (top_gainers_cache_key vs dur top_coins) = None
      \<and> no_persistent_entry (cache_manager a) (top_gainers_cache_key vs dur top_coins)
      \<and> \<not> truthy (fst (call_tool_with_retry up 3 (mcp_manager a)))
    \<longrightarrow> fst (get_top_gainers_losers build up vs dur top_coins a) = empty_response
        \<and> cache (cache_manager (snd (get_top_gainers_losers build up vs dur top_coins a)))
              (top_gainers_cache_key vs dur top_coins)
            = Some (empty_response,
                    clock (mcp_manager (snd (get_top_gainers_losers build up vs dur top_coins a))),
                    60))
   \<and> (cache (cache_manager a) (top_gainers_cache_key vs dur top_coins)
          = Some (empty_response, t, 60)
      \<and> clock (mcp_manager a) - t < 60
    \<longrightarrow> fst (get_top_gainers_losers build up vs dur top_coins a) = empty_response
        \<and> mcp_manager (snd (get_top_gainers_losers build up vs dur top_coins a)) = mcp_manager a)
   \<and> (cache (cache_manager a) (top_gainers_cache_key vs dur top_coins) = None
      \<and> no_persistent_entry (cache_manager a) (top_gainers_cache_key vs dur top_coins)
      \<and> truthy (fst (call_tool_with_retry up 3 (mcp_manager a)))
      \<and> build (fst (call_tool_with_retry up 3 (mcp_manager a))) = Inl e
    \<longrightarrow> fst (get_top_gainers_losers build up vs dur top_coins a) = empty_response
        \<and> cache (cache_manager (snd (get_top_gainers_losers build up vs dur top_coins a)))
              (top_gainers_cache_key vs dur top_coins)
            = None)"
proof (intro conjI impI)
  let ?key = "top_gainers_cache_key vs dur top_coins"
  let ?a1 = "a\<lparr>cache_manager := snd (CacheManager_get (clock (mcp_manager a)) ?key (cache_manager a))\<rparr>"
  {
    assume h: "cache (cache_manager a) ?key = None \<and> no_persistent_entry (cache_manager a) ?key
        \<and> \<not> truthy (fst (call_tool_with_retry up 3 (mcp_manager a)))"
    then have hot: "cache (cache_manager a) ?key = None"
      and cold: "no_persistent_entry (cache_manager a) ?key" by simp_all
    have ep: "get_top_gainers_losers build up vs dur top_coins a = fetch_data build up ?key ?a1"
      by (rule endpoint_miss [OF hot cold])
    have hot1: "cache (cache_manager ?a1) ?key = None"
      using get_miss(2) [OF hot cold, of "clock (mcp_manager a)"] hot by simp
    have cold1: "no_persistent_entry (cache_manager ?a1) ?key"
      using get_miss(3) [OF hot cold, of "clock (mcp_manager a)"] by simp
    have none1: "\<not> truthy (fst (call_tool_with_retry up 3 (mcp_manager ?a1)))"
      using h by simp
    show "fst (get_top_gainers_losers build up vs dur top_coins a) = empty_response"
      unfolding ep by (rule fetch_no_data(1) [OF hot1 cold1 none1])
    show "cache (cache_manager (snd (get_top_gainers_losers build up vs dur top_coins a))) ?key
        = Some (empty_response,
                clock (mcp_manager (snd (get_top_gainers_losers build up vs dur top_coins a))), 60)"
      unfolding ep by (rule fetch_no_data(2) [OF hot1 cold1 none1])
  }
  {
    assume h: "cache (cache_manager a) ?key = Some (empty_response, t, 60)
        \<and> clock (mcp_manager a) - t < 60"
    then have ep: "get_top_gainers_losers build up vs dur top_coins a =
        (empty_response, a\<lparr>cache_manager := cache_logs (MemoryCacheHit ?key) (cache_manager a)\<rparr>)"
      using endpoint_hit [of a vs dur top_coins t build up] by simp
    show "fst (get_top_gainers_losers build up vs dur top_coins a) = empty_response"
      by (simp add: ep)
    show "mcp_manager (snd (get_top_gainers_losers build up vs dur top_coins a)) = mcp_manager a"
      by (simp add: ep)
  }
  {
    assume h: "cache (cache_manager a) ?key = None \<and> no_persistent_entry (cache_manager a) ?key
        \<and> truthy (fst (call_tool_with_retry up 3 (mcp_manager a)))
        \<and> build (fst (call_tool_with_retry up 3 (mcp_manager a))) = Inl e"
    then have hot: "cache (cache_manager a) ?key = None"
      and cold: "no_persistent_entry (cache_manager a) ?key" by simp_all
    have ep: "get_top_gainers_losers build up vs dur top_coins a = fetch_data build up ?key ?a1"
      by (rule endpoint_miss [OF hot cold])
    have hot1: "cache (cache_manager ?a1) ?key = None"
      using get_miss(2) [OF hot cold, of "clock (mcp_manager a)"] hot by simp
    have cold1: "no_persistent_entry (cache_manager ?a1) ?key"
      using get_miss(3) [OF hot cold, of "clock (mcp_manager a)"] by simp
    have some1: "truthy (fst (call_tool_with_retry up 3 (mcp_manager ?a1)))"
      and bad1: "build (fst (call_tool_with_retry up 3 (mcp_manager ?a1))) = Inl e"
      using h by simp_all
    show "fst (get_top_gainers_losers build up vs dur top_coins a) = empty_response"
      unfolding ep by (rule fetch_exception(1) [where build = build, OF hot1 cold1 some1 bad1])
    show "cache (cache_manager (snd (get_top_gainers_losers build up vs dur top_coins a))) ?key = None"
      unfolding ep by (rule fetch_exception(2) [where build = build, OF hot1 cold1 some1 bad1])
  }
qed


theorem negative_caching_of_empty_response_witness:
  "fst (get_top_gainers_losers build_rejects up_timeout ''usd'' ''24h'' ''1000'' app_init)
     = empty_response
   \<and> fst (get_top_gainers_losers build_rejects up_timeout ''usd'' ''24h'' ''1000''
            (later 30 (snd (get_top_gainers_losers build_rejects up_timeout
                              ''usd'' ''24h'' ''1000'' app_init))))
       = empty_response
   \<and> mcp_manager (snd (get_top_gainers_losers build_rejects up_timeout ''usd'' ''24h'' ''1000''
            (later 30 (snd (get_top_gainers_losers build_rejects up_timeout
                              ''usd'' ''24h'' ''1000'' app_init)))))
       = mcp_manager (later 30 (snd (get_top_gainers_losers build_rejects up_timeout
                              ''usd'' ''24h'' ''1000'' app_init)))
   \<and> fst (get_top_gainers_losers build_rejects up_bad_data ''usd'' ''24h'' ''1000'' app_init)
       = empty_response
   \<and> cache (cache_manager (snd (get_top_gainers_losers build_rejects up_bad_data
                                   ''usd'' ''24h'' ''1000'' app_init)))
         (top_gainers_cache_key ''usd'' ''24h'' ''1000'')
       = None"
proof -
  let ?key = "top_gainers_cache_key ''usd'' ''24h'' ''1000''"
  let ?a1 = "snd (get_top_gainers_losers build_rejects up_timeout ''usd'' ''24h'' ''1000'' app_init)"
  have hot: "cache (cache_manager app_init) ?key = None"
    by (simp add: app_init_def cache_init_def)
  have cold: "no_persistent_entry (cache_manager app_init) ?key"
    by (simp add: app_init_def cache_init_def no_persistent_entry_def)
  have "fst (call_tool_with_retry up_timeout 3 (mcp_manager app_init)) = PNone"
    by (rule call_all_fail) (simp add: up_timeout_def)
  then have none: "\<not> truthy (fst (call_tool_with_retry up_timeout 3 (mcp_manager app_init)))"
    by simp
  from negative_caching_of_empty_response
         [where a = app_init and vs = "''usd''" and dur = "''24h''" and top_coins = "''1000''"
            and up = up_timeout and build = build_rejects]
       hot cold none
  have first: "fst (get_top_gainers_losers build_rejects up_timeout ''usd'' ''24h'' ''1000'' app_init)
        = empty_response"
    and stored: "cache (cache_manager ?a1) ?key = Some (empty_response, clock (mcp_manager ?a1), 60)"
    by blast+
  have entry: "cache (cache_manager (later 30 ?a1)) ?key
        = Some (empty_response, clock (mcp_manager ?a1), 60)
      \<and> clock (mcp_manager (later 30 ?a1)) - clock (mcp_manager ?a1) < 60"
    using stored by (simp add: later_def)
  from negative_caching_of_empty_response
         [where a = "later 30 ?a1" and vs = "''usd''" and dur = "''24h''" and top_coins = "''1000''"
            and up = up_timeout and build = build_rejects and t = "clock (mcp_manager ?a1)"]
       entry
  have second: "fst (get_top_gainers_losers build_rejects up_timeout ''usd'' ''24h'' ''1000''
                       (later 30 ?a1)) = empty_response
      \<and> mcp_manager (snd (get_top_gainers_losers build_rejects up_timeout ''usd'' ''24h'' ''1000''
                              (later 30 ?a1))) = mcp_manager (later 30 ?a1)"
    by blast
  have data: "fst (call_tool_with_retry up_bad_data 3 (mcp_manager app_init))
      = PDict [(''top_gainers'', PStr ''bad'')]"
    by (rule call_success_first) (simp_all add: app_init_def MCPManager_init_def up_bad_data_def)
  have some: "truthy (fst (call_tool_with_retry up_bad_data 3 (mcp_manager app_init)))"
    by (simp add: data)
  have bad: "build_rejects (fst (call_tool_with_retry up_bad_data 3 (mcp_manager app_init)))
      = Inl ''validation error''"
    by (simp add: build_rejects_def)
  from negative_caching_of_empty_response
         [where a = app_init and vs = "''usd''" and dur = "''24h''" and top_coins = "''1000''"
            and up = up_bad_data and build = build_rejects and e = "''validation error''"]
       hot cold some bad
  have third: "fst (get_top_gainers_losers build_rejects up_bad_data ''usd'' ''24h'' ''1000'' app_init)
        = empty_response
      \<and> cache (cache_manager (snd (get_top_gainers_losers build_rejects up_bad_data
                                      ''usd'' ''24h'' ''1000'' app_init))) ?key = None"
    by blast
  from first second third show ?thesis by blast
qed

section \<open>Properties of request coalescing\<close>

lemmas coalescer_defs = run_def invocations_def underway_def coalescer_init_def the_lock_def
  enter_locked_def release_lock_def resume_def Let_def

lemma the_lock_upd [simp]: "the_lock (L(key \<mapsto> l)) k = (if k = key then l else the_lock L k)"
  by (simp add: the_lock_def)

lemma the_lock_empty [simp]: "the_lock Map.empty k = \<lparr>locked = False, waiters = []\<rparr>"
  by (simp add: the_lock_def)

lemma count_update_new:
  "i < length xs \<Longrightarrow> \<not> P (xs ! i) \<Longrightarrow> P y \<Longrightarrow>
   length (filter P (xs[i := y])) = Suc (length (filter P xs))"
  by (induction xs arbitrary: i) (auto split: nat.splits simp: nth_Cons')

lemma count_update_same:
  "i < length xs \<Longrightarrow> P (xs ! i) \<Longrightarrow> P y \<Longrightarrow>
   length (filter P (xs[i := y])) = length (filter P xs)"
  by (induction xs arbitrary: i) (auto split: nat.splits simp: nth_Cons')

text \<open>The invariant holds initially and is preserved by every event.\<close>

lemma inv_init: "coalescer_inv coalescer_init"
  by (simp add: coalescer_inv_def coalescer_init_def)

text \<open>What an event does to a state, case by case.\<close>

lemma step_call_free:
  assumes "\<not> locked (the_lock (request_locks st) key)"
    and "waiters (the_lock (request_locks st) key) = []"
    and "active_requests st key = None"
  shows "step st (Call key) =
     \<lparr>request_locks = (request_locks st)(key \<mapsto> \<lparr>locked = True, waiters = []\<rparr>),
      active_requests = (active_requests st)(key \<mapsto> length (tasks st)),
      callers = callers st @ [AwaitingOwn key (length (tasks st))],
      tasks = tasks st @ [\<lparr>task_key = key, awaiters = [length (callers st)], task_result = None\<rparr>]\<rparr>"
  using assms by (cases "the_lock (request_locks st) key") (simp add: enter_locked_def Let_def)

lemma step_call_busy:
  assumes "locked (the_lock (request_locks st) key)"
  shows "step st (Call key) =
     \<lparr>request_locks = (request_locks st)(key \<mapsto>
          \<lparr>locked = True, waiters = waiters (the_lock (request_locks st) key) @ [length (callers st)]\<rparr>),
      active_requests = active_requests st,
      callers = callers st @ [WaitingLock key],
      tasks = tasks st\<rparr>"
  using assms by (cases "the_lock (request_locks st) key") (simp add: Let_def)

lemma step_finish_last:
  assumes "t < length (tasks st)" and "task_result (tasks st ! t) = None"
    and "awaiters (tasks st ! t) = [c]"
    and "callers st ! c = AwaitingOwn key t"
    and "waiters (the_lock (request_locks st) key) = []"
  shows "step st (Finish t v) =
     \<lparr>request_locks = (request_locks st)(key \<mapsto> \<lparr>locked = False, waiters = []\<rparr>),
      active_requests = (active_requests st)(key := None),
      callers = (callers st)[c := Returned v],
      tasks = (tasks st)[t := (tasks st ! t)\<lparr>awaiters := [], task_result := Some v\<rparr>]\<rparr>"
  using assms by (simp add: resume_def release_lock_def)

lemma step_finish_next:
  assumes "t < length (tasks st)" and "task_result (tasks st ! t) = None"
    and "awaiters (tasks st ! t) = [c]"
    and "callers st ! c = AwaitingOwn key t"
    and "waiters (the_lock (request_locks st) key) = w # ws"
  shows "step st (Finish t v) =
     \<lparr>request_locks = (request_locks st)(key \<mapsto> \<lparr>locked = True, waiters = ws\<rparr>),
      active_requests = (active_requests st)(key \<mapsto> length (tasks st)),
      callers = (callers st)[c := Returned v, w := AwaitingOwn key (length (tasks st))],
      tasks = (tasks st)[t := (tasks st ! t)\<lparr>awaiters := [], task_result := Some v\<rparr>]
                @ [\<lparr>task_key = key, awaiters = [w], task_result = None\<rparr>]\<rparr>"
  using assms by (simp add: resume_def release_lock_def enter_locked_def Let_def)




lemma coalescer_invD:
  assumes "coalescer_inv st"
  shows "\<And>k t. active_requests st k = Some t \<Longrightarrow> t < length (tasks st)"
    and "\<And>k t. active_requests st k = Some t \<Longrightarrow> task_key (tasks st ! t) = k"
    and "\<And>k t. active_requests st k = Some t \<Longrightarrow> task_result (tasks st ! t) = None"
    and "\<And>k t. active_requests st k = Some t \<Longrightarrow> locked (the_lock (request_locks st) k)"
    and "\<And>t. t < length (tasks st) \<Longrightarrow> task_result (tasks st ! t) = None \<Longrightarrow>
           active_requests st (task_key (tasks st ! t)) = Some t"
    and "\<And>t. t < length (tasks st) \<Longrightarrow> task_result (tasks st ! t) = None \<Longrightarrow>
           \<exists>c < length (callers st). awaiters (tasks st ! t) = [c]
                 \<and> callers st ! c = AwaitingOwn (task_key (tasks st ! t)) t"
    and "\<And>k. active_requests st k = None \<Longrightarrow> \<not> locked (the_lock (request_locks st) k)"
    and "\<And>k. active_requests st k = None \<Longrightarrow> waiters (the_lock (request_locks st) k) = []"
    and "\<And>k. distinct (waiters (the_lock (request_locks st) k))"
    and "\<And>k w. w \<in> set (waiters (the_lock (request_locks st) k)) \<Longrightarrow> w < length (callers st)"
    and "\<And>k w. w \<in> set (waiters (the_lock (request_locks st) k)) \<Longrightarrow>
           callers st ! w = WaitingLock k"
    and "\<And>c k t. c < length (callers st) \<Longrightarrow> callers st ! c \<noteq> AwaitingActive k t"
    and "\<And>c k t. c < length (callers st) \<Longrightarrow> callers st ! c = AwaitingOwn k t \<Longrightarrow>
           active_requests st k = Some t"
    and "\<And>c k t. c < length (callers st) \<Longrightarrow> callers st ! c = AwaitingOwn k t \<Longrightarrow>
           awaiters (tasks st ! t) = [c]"
    and "length (tasks st) = length (filter holds_or_done (callers st))"
  using assms unfolding coalescer_inv_def by blast+

lemma coalescer_invI:
  assumes "\<forall>k t. A k = Some t \<longrightarrow>
           t < length T \<and> task_key (T ! t) = k
           \<and> task_result (T ! t) = None \<and> locked (the_lock L k)"
    and "\<forall>t < length T. task_result (T ! t) = None \<longrightarrow>
           A (task_key (T ! t)) = Some t
           \<and> (\<exists>c < length C. awaiters (T ! t) = [c]
                 \<and> C ! c = AwaitingOwn (task_key (T ! t)) t)"
    and "\<forall>k. A k = None \<longrightarrow> \<not> locked (the_lock L k) \<and> waiters (the_lock L k) = []"
    and "\<forall>k. distinct (waiters (the_lock L k))
           \<and> (\<forall>w \<in> set (waiters (the_lock L k)). w < length C \<and> C ! w = WaitingLock k)"
    and "\<forall>c < length C.
           (\<forall>k t. C ! c \<noteq> AwaitingActive k t)
           \<and> (\<forall>k t. C ! c = AwaitingOwn k t \<longrightarrow> A k = Some t \<and> awaiters (T ! t) = [c])"
    and "length T = length (filter holds_or_done C)"
  shows "coalescer_inv \<lparr>request_locks = L, active_requests = A, callers = C, tasks = T\<rparr>"
  unfolding coalescer_inv_def coalescer.select_convs using assms by blast

lemma inv_call_free:
  assumes inv: "coalescer_inv st"
    and free: "\<not> locked (the_lock (request_locks st) key)"
  shows "coalescer_inv (step st (Call key))"
proof -
  let ?locks = "request_locks st" and ?act = "active_requests st"
  let ?cs = "callers st" and ?ts = "tasks st"
  note i1 = coalescer_invD(1-4) [OF inv] and i2 = coalescer_invD(5) [OF inv]
    and i2c = coalescer_invD(6) [OF inv]
    and i3 = coalescer_invD(7-8) [OF inv] and i4 = coalescer_invD(9-11) [OF inv]
    and i5 = coalescer_invD(12-14) [OF inv] and i6 = coalescer_invD(15) [OF inv]
  from free i1(4) have act: "?act key = None" by (cases "?act key") auto
  with i3 have nowait: "waiters (the_lock ?locks key) = []" by simp
  let ?n = "length ?ts" and ?m = "length ?cs"
  let ?L = "?locks(key \<mapsto> \<lparr>locked = True, waiters = []\<rparr>)"
  let ?A = "?act(key \<mapsto> ?n)"
  let ?C = "?cs @ [AwaitingOwn key ?n]"
  let ?T = "?ts @ [\<lparr>task_key = key, awaiters = [?m], task_result = None\<rparr>]"
  have eq: "step st (Call key) =
      \<lparr>request_locks = ?L, active_requests = ?A, callers = ?C, tasks = ?T\<rparr>"
    by (rule step_call_free [OF free nowait act])
  show ?thesis unfolding eq
  proof (rule coalescer_invI)
    show "\<forall>k t. ?A k = Some t \<longrightarrow> t < length ?T \<and> task_key (?T ! t) = k
        \<and> task_result (?T ! t) = None \<and> locked (the_lock ?L k)"
      using i1(2-4) by (auto simp: nth_append less_Suc_eq dest: i1(1))
  next
    show "\<forall>t < length ?T. task_result (?T ! t) = None \<longrightarrow>
        ?A (task_key (?T ! t)) = Some t
        \<and> (\<exists>c < length ?C. awaiters (?T ! t) = [c] \<and> ?C ! c = AwaitingOwn (task_key (?T ! t)) t)"
    proof (intro allI impI)
      fix t assume t: "t < length ?T" and r: "task_result (?T ! t) = None"
      show "?A (task_key (?T ! t)) = Some t
        \<and> (\<exists>c < length ?C. awaiters (?T ! t) = [c] \<and> ?C ! c = AwaitingOwn (task_key (?T ! t)) t)"
      proof (cases "t < ?n")
        case True
        with r have r': "task_result (?ts ! t) = None" by (simp add: nth_append)
        from i2 [OF True r'] i2c [OF True r']
        obtain c where c: "?act (task_key (?ts ! t)) = Some t" "c < ?m"
          "awaiters (?ts ! t) = [c]" "?cs ! c = AwaitingOwn (task_key (?ts ! t)) t" by blast
        with act have "task_key (?ts ! t) \<noteq> key" by auto
        with c True show ?thesis by (auto simp: nth_append intro!: exI [of _ c])
      next
        case False
        with t have "t = ?n" by simp
        then show ?thesis by (auto simp: nth_append intro!: exI [of _ ?m])
      qed
    qed
  next
    show "\<forall>k. ?A k = None \<longrightarrow> \<not> locked (the_lock ?L k) \<and> waiters (the_lock ?L k) = []"
      using i3 by auto
  next
    show "\<forall>k. distinct (waiters (the_lock ?L k))
        \<and> (\<forall>w \<in> set (waiters (the_lock ?L k)). w < length ?C \<and> ?C ! w = WaitingLock k)"
      using i4(1) by (auto simp: nth_append i4(3) less_Suc_eq dest: i4(2))
  next
    show "\<forall>c < length ?C. (\<forall>k t. ?C ! c \<noteq> AwaitingActive k t)
        \<and> (\<forall>k t. ?C ! c = AwaitingOwn k t \<longrightarrow> ?A k = Some t \<and> awaiters (?T ! t) = [c])"
    proof (intro allI impI)
      fix c assume c: "c < length ?C"
      show "(\<forall>k t. ?C ! c \<noteq> AwaitingActive k t)
        \<and> (\<forall>k t. ?C ! c = AwaitingOwn k t \<longrightarrow> ?A k = Some t \<and> awaiters (?T ! t) = [c])"
      proof (cases "c < ?m")
        case True
        show ?thesis
        proof (intro conjI allI impI)
          fix k t show "?C ! c \<noteq> AwaitingActive k t"
            using i5(1) [OF True] True by (simp add: nth_append)
        next
          fix k t assume "?C ! c = AwaitingOwn k t"
          with True have own: "?cs ! c = AwaitingOwn k t" by (simp add: nth_append)
          with i5(2,3) [OF True] have a: "?act k = Some t" "awaiters (?ts ! t) = [c]" by auto
          with act have "k \<noteq> key" by auto
          moreover from i1(1) [OF a(1)] have "t < ?n" by simp
          ultimately show "?A k = Some t" "awaiters (?T ! t) = [c]"
            using a by (simp_all add: nth_append)
        qed
      next
        case False
        with c have "c = ?m" by simp
        then show ?thesis by (auto simp: nth_append)
      qed
    qed
  next
    show "length ?T = length (filter holds_or_done ?C)"
      using i6 by simp
  qed
qed


lemma inv_call_busy:
  assumes inv: "coalescer_inv st"
    and busy: "locked (the_lock (request_locks st) key)"
  shows "coalescer_inv (step st (Call key))"
proof -
  let ?locks = "request_locks st" and ?act = "active_requests st"
  let ?cs = "callers st" and ?ts = "tasks st"
  note i1 = coalescer_invD(1-4) [OF inv] and i2 = coalescer_invD(5) [OF inv]
    and i2c = coalescer_invD(6) [OF inv]
    and i3 = coalescer_invD(7-8) [OF inv] and i4 = coalescer_invD(9-11) [OF inv]
    and i5 = coalescer_invD(12-14) [OF inv] and i6 = coalescer_invD(15) [OF inv]
  let ?m = "length ?cs"
  let ?ws = "waiters (the_lock ?locks key)"
  let ?L = "?locks(key \<mapsto> \<lparr>locked = True, waiters = ?ws @ [?m]\<rparr>)"
  let ?C = "?cs @ [WaitingLock key]"
  have eq: "step st (Call key) =
      \<lparr>request_locks = ?L, active_requests = ?act, callers = ?C, tasks = ?ts\<rparr>"
    by (rule step_call_busy [OF busy])
  from busy i3(1) have act: "?act key \<noteq> None" by blast
  show ?thesis unfolding eq
  proof (rule coalescer_invI)
    show "\<forall>k t. ?act k = Some t \<longrightarrow> t < length ?ts \<and> task_key (?ts ! t) = k
        \<and> task_result (?ts ! t) = None \<and> locked (the_lock ?L k)"
      by (auto simp: i1)
  next
    show "\<forall>t < length ?ts. task_result (?ts ! t) = None \<longrightarrow>
        ?act (task_key (?ts ! t)) = Some t
        \<and> (\<exists>c < length ?C. awaiters (?ts ! t) = [c] \<and> ?C ! c = AwaitingOwn (task_key (?ts ! t)) t)"
    proof (intro allI impI)
      fix t assume t: "t < length ?ts" and r: "task_result (?ts ! t) = None"
      from i2 [OF t r] i2c [OF t r]
      obtain c where c: "?act (task_key (?ts ! t)) = Some t" "c < ?m"
        "awaiters (?ts ! t) = [c]" "?cs ! c = AwaitingOwn (task_key (?ts ! t)) t" by blast
      then show "?act (task_key (?ts ! t)) = Some t
        \<and> (\<exists>c < length ?C. awaiters (?ts ! t) = [c] \<and> ?C ! c = AwaitingOwn (task_key (?ts ! t)) t)"
        by (auto simp: nth_append intro!: exI [of _ c])
    qed
  next
    show "\<forall>k. ?act k = None \<longrightarrow> \<not> locked (the_lock ?L k) \<and> waiters (the_lock ?L k) = []"
      using act by (auto simp: i3)
  next
    have "?m \<notin> set ?ws" using i4(2) [of ?m key] by auto
    then show "\<forall>k. distinct (waiters (the_lock ?L k))
        \<and> (\<forall>w \<in> set (waiters (the_lock ?L k)). w < length ?C \<and> ?C ! w = WaitingLock k)"
      using i4(1) by (auto simp: nth_append i4(3) less_Suc_eq dest: i4(2))
  next
    show "\<forall>c < length ?C. (\<forall>k t. ?C ! c \<noteq> AwaitingActive k t)
        \<and> (\<forall>k t. ?C ! c = AwaitingOwn k t \<longrightarrow> ?act k = Some t \<and> awaiters (?ts ! t) = [c])"
    proof (intro allI impI)
      fix c assume c: "c < length ?C"
      show "(\<forall>k t. ?C ! c \<noteq> AwaitingActive k t)
        \<and> (\<forall>k t. ?C ! c = AwaitingOwn k t \<longrightarrow> ?act k = Some t \<and> awaiters (?ts ! t) = [c])"
      proof (cases "c < ?m")
        case True
        then show ?thesis using i5 [OF True] by (auto simp: nth_append)
      next
        case False
        with c have "c = ?m" by simp
        then show ?thesis by (auto simp: nth_append)
      qed
    qed
  next
    show "length ?ts = length (filter holds_or_done ?C)"
      using i6 by simp
  qed
qed

lemma inv_call: "coalescer_inv st \<Longrightarrow> coalescer_inv (step st (Call key))"
  using inv_call_free inv_call_busy by blast


lemma inv_finish_last:
  assumes inv: "coalescer_inv st"
    and t: "t < length (tasks st)" and run: "task_result (tasks st ! t) = None"
    and aw: "awaiters (tasks st ! t) = [c]" and c: "c < length (callers st)"
    and own: "callers st ! c = AwaitingOwn (task_key (tasks st ! t)) t"
    and nowait: "waiters (the_lock (request_locks st) (task_key (tasks st ! t))) = []"
  shows "coalescer_inv (step st (Finish t v))"
proof -
  let ?locks = "request_locks st" and ?act = "active_requests st"
  let ?cs = "callers st" and ?ts = "tasks st"
  note i1 = coalescer_invD(1-4) [OF inv] and i2 = coalescer_invD(5) [OF inv]
    and i2c = coalescer_invD(6) [OF inv]
    and i3 = coalescer_invD(7-8) [OF inv] and i4 = coalescer_invD(9-11) [OF inv]
    and i5 = coalescer_invD(12-14) [OF inv] and i6 = coalescer_invD(15) [OF inv]
  let ?key = "task_key (?ts ! t)"
  let ?done = "(?ts ! t)\<lparr>awaiters := [], task_result := Some v\<rparr>"
  let ?L = "?locks(?key \<mapsto> \<lparr>locked = False, waiters = []\<rparr>)"
  let ?A = "?act(?key := None)"
  let ?C = "?cs[c := Returned v]"
  let ?T = "?ts[t := ?done]"
  have eq: "step st (Finish t v) =
      \<lparr>request_locks = ?L, active_requests = ?A, callers = ?C, tasks = ?T\<rparr>"
    by (rule step_finish_last [OF t run aw own nowait])
  have act: "?act ?key = Some t" by (rule i2 [OF t run])
  have other_task: "t' \<noteq> t \<and> t' < length ?ts \<and> task_key (?ts ! t') = k
      \<and> task_result (?ts ! t') = None"
    if "?act k = Some t'" "k \<noteq> ?key" for k t'
    using that i1 [OF that(1)] by auto
  show ?thesis unfolding eq
  proof (rule coalescer_invI)
    show "\<forall>k t'. ?A k = Some t' \<longrightarrow> t' < length ?T \<and> task_key (?T ! t') = k
        \<and> task_result (?T ! t') = None \<and> locked (the_lock ?L k)"
    proof (intro allI impI)
      fix k t' assume a: "?A k = Some t'"
      then have k: "k \<noteq> ?key" and a': "?act k = Some t'" by (auto split: if_splits)
      from other_task [OF a' k] i1(4) [OF a'] k
      show "t' < length ?T \<and> task_key (?T ! t') = k
        \<and> task_result (?T ! t') = None \<and> locked (the_lock ?L k)"
        by simp
    qed
  next
    show "\<forall>t' < length ?T. task_result (?T ! t') = None \<longrightarrow>
        ?A (task_key (?T ! t')) = Some t'
        \<and> (\<exists>c' < length ?C. awaiters (?T ! t') = [c']
              \<and> ?C ! c' = AwaitingOwn (task_key (?T ! t')) t')"
    proof (intro allI impI)
      fix t' assume t': "t' < length ?T" and r: "task_result (?T ! t') = None"
      from t' r t have ne: "t' \<noteq> t" by (cases "t' = t") auto
      with t' r have t'': "t' < length ?ts" and r': "task_result (?ts ! t') = None" by simp_all
      from i2 [OF t'' r'] i2c [OF t'' r']
      obtain c' where c': "?act (task_key (?ts ! t')) = Some t'" "c' < length ?cs"
        "awaiters (?ts ! t') = [c']" "?cs ! c' = AwaitingOwn (task_key (?ts ! t')) t'" by blast
      from c'(1) act ne have k: "task_key (?ts ! t') \<noteq> ?key" by auto
      from c'(4) own ne have "c' \<noteq> c" by auto
      with c' k ne show "?A (task_key (?T ! t')) = Some t'
        \<and> (\<exists>c' < length ?C. awaiters (?T ! t') = [c']
              \<and> ?C ! c' = AwaitingOwn (task_key (?T ! t')) t')"
        by (auto intro!: exI [of _ c'])
    qed
  next
    show "\<forall>k. ?A k = None \<longrightarrow> \<not> locked (the_lock ?L k) \<and> waiters (the_lock ?L k) = []"
      by (auto simp: i3 split: if_splits)
  next
    show "\<forall>k. distinct (waiters (the_lock ?L k))
        \<and> (\<forall>w \<in> set (waiters (the_lock ?L k)). w < length ?C \<and> ?C ! w = WaitingLock k)"
    proof (intro allI conjI ballI)
      fix k show "distinct (waiters (the_lock ?L k))" by (simp add: i4(1))
    next
      fix k w assume w: "w \<in> set (waiters (the_lock ?L k))"
      then have k: "k \<noteq> ?key" and w': "w \<in> set (waiters (the_lock ?locks k))"
        by (auto split: if_splits)
      from i4(3) [OF w'] own have "w \<noteq> c" by auto
      with i4(2) [OF w'] i4(3) [OF w']
      show "w < length ?C" "?C ! w = WaitingLock k" by simp_all
    qed
  next
    show "\<forall>c' < length ?C. (\<forall>k t'. ?C ! c' \<noteq> AwaitingActive k t')
        \<and> (\<forall>k t'. ?C ! c' = AwaitingOwn k t' \<longrightarrow> ?A k = Some t' \<and> awaiters (?T ! t') = [c'])"
    proof (intro allI impI)
      fix c' assume c': "c' < length ?C"
      show "(\<forall>k t'. ?C ! c' \<noteq> AwaitingActive k t')
        \<and> (\<forall>k t'. ?C ! c' = AwaitingOwn k t' \<longrightarrow> ?A k = Some t' \<and> awaiters (?T ! t') = [c'])"
      proof (cases "c' = c")
        case True
        with c show ?thesis by simp
      next
        case False
        from c' have c'': "c' < length ?cs" by simp
        show ?thesis
        proof (intro conjI allI impI)
          fix k t' show "?C ! c' \<noteq> AwaitingActive k t'"
            using False i5(1) [OF c''] by simp
        next
          fix k t' assume "?C ! c' = AwaitingOwn k t'"
          with False have o: "?cs ! c' = AwaitingOwn k t'" by simp
          from i5(2) [OF c'' o] i5(3) [OF c'' o]
          have a: "?act k = Some t'" "awaiters (?ts ! t') = [c']" by simp_all
          have k: "k \<noteq> ?key"
          proof
            assume "k = ?key"
            with a(1) act have "t' = t" by simp
            with a(2) aw False show False by simp
          qed
          from other_task [OF a(1) k] a k
          show "?A k = Some t'" "awaiters (?T ! t') = [c']" by simp_all
        qed
      qed
    qed
  next
    have "length (filter holds_or_done ?C) = length (filter holds_or_done ?cs)"
      using c own by (intro count_update_same) simp_all
    with i6 show "length ?T = length (filter holds_or_done ?C)" by simp
  qed
qed


lemma inv_finish_next:
  assumes inv: "coalescer_inv st"
    and t: "t < length (tasks st)" and run: "task_result (tasks st ! t) = None"
    and aw: "awaiters (tasks st ! t) = [c]" and c: "c < length (callers st)"
    and own: "callers st ! c = AwaitingOwn (task_key (tasks st ! t)) t"
    and wait: "waiters (the_lock (request_locks st) (task_key (tasks st ! t))) = w # ws"
  shows "coalescer_inv (step st (Finish t v))"
proof -
  let ?locks = "request_locks st" and ?act = "active_requests st"
  let ?cs = "callers st" and ?ts = "tasks st"
  note i1 = coalescer_invD(1-4) [OF inv] and i2 = coalescer_invD(5) [OF inv]
    and i2c = coalescer_invD(6) [OF inv]
    and i3 = coalescer_invD(7-8) [OF inv] and i4 = coalescer_invD(9-11) [OF inv]
    and i5 = coalescer_invD(12-14) [OF inv] and i6 = coalescer_invD(15) [OF inv]
  let ?key = "task_key (?ts ! t)"
  let ?n = "length ?ts"
  let ?done = "(?ts ! t)\<lparr>awaiters := [], task_result := Some v\<rparr>"
  let ?L = "?locks(?key \<mapsto> \<lparr>locked = True, waiters = ws\<rparr>)"
  let ?A = "?act(?key \<mapsto> ?n)"
  let ?C = "?cs[c := Returned v, w := AwaitingOwn ?key ?n]"
  let ?T = "?ts[t := ?done] @ [\<lparr>task_key = ?key, awaiters = [w], task_result = None\<rparr>]"
  have eq: "step st (Finish t v) =
      \<lparr>request_locks = ?L, active_requests = ?A, callers = ?C, tasks = ?T\<rparr>"
    by (rule step_finish_next [OF t run aw own wait])
  have act: "?act ?key = Some t" by (rule i2 [OF t run])
  have w_in: "w \<in> set (waiters (the_lock ?locks ?key))" by (simp add: wait)
  have w_len: "w < length ?cs" and w_wait: "?cs ! w = WaitingLock ?key"
    using i4(2) [OF w_in] i4(3) [OF w_in] by simp_all
  have w_c: "w \<noteq> c" using w_wait own by auto
  have ws: "distinct ws" "w \<notin> set ws" using i4(1) [of ?key] by (simp_all add: wait)
  have other_task: "t' \<noteq> t \<and> t' < ?n \<and> task_key (?ts ! t') = k
      \<and> task_result (?ts ! t') = None"
    if "?act k = Some t'" "k \<noteq> ?key" for k t'
    using that i1 [OF that(1)] by auto
  show ?thesis unfolding eq
  proof (rule coalescer_invI)
    show "\<forall>k t'. ?A k = Some t' \<longrightarrow> t' < length ?T \<and> task_key (?T ! t') = k
        \<and> task_result (?T ! t') = None \<and> locked (the_lock ?L k)"
    proof (intro allI impI)
      fix k t' assume a: "?A k = Some t'"
      show "t' < length ?T \<and> task_key (?T ! t') = k
        \<and> task_result (?T ! t') = None \<and> locked (the_lock ?L k)"
      proof (cases "k = ?key")
        case True
        with a have "t' = ?n" by simp
        with True show ?thesis by (simp add: nth_append)
      next
        case False
        with a have a': "?act k = Some t'" by simp
        from other_task [OF a' False] i1(4) [OF a'] False
        show ?thesis by (simp add: nth_append)
      qed
    qed
  next
    show "\<forall>t' < length ?T. task_result (?T ! t') = None \<longrightarrow>
        ?A (task_key (?T ! t')) = Some t'
        \<and> (\<exists>c' < length ?C. awaiters (?T ! t') = [c']
              \<and> ?C ! c' = AwaitingOwn (task_key (?T ! t')) t')"
    proof (intro allI impI)
      fix t' assume t': "t' < length ?T" and r: "task_result (?T ! t') = None"
      show "?A (task_key (?T ! t')) = Some t'
        \<and> (\<exists>c' < length ?C. awaiters (?T ! t') = [c']
              \<and> ?C ! c' = AwaitingOwn (task_key (?T ! t')) t')"
      proof (cases "t' < ?n")
        case False
        with t' have "t' = ?n" by simp
        with w_len w_c show ?thesis by (auto simp: nth_append intro!: exI [of _ w])
      next
        case True
        from True r t have ne: "t' \<noteq> t" by (cases "t' = t") (auto simp: nth_append)
        with True r have r': "task_result (?ts ! t') = None" by (simp add: nth_append)
        from i2 [OF True r'] i2c [OF True r']
        obtain c' where c': "?act (task_key (?ts ! t')) = Some t'" "c' < length ?cs"
          "awaiters (?ts ! t') = [c']" "?cs ! c' = AwaitingOwn (task_key (?ts ! t')) t'" by blast
        from c'(1) act ne have k: "task_key (?ts ! t') \<noteq> ?key" by auto
        from c'(4) own ne have "c' \<noteq> c" by auto
        moreover from c'(4) w_wait have "c' \<noteq> w" by auto
        ultimately show ?thesis
          using c' k ne True by (auto simp: nth_append intro!: exI [of _ c'])
      qed
    qed
  next
    show "\<forall>k. ?A k = None \<longrightarrow> \<not> locked (the_lock ?L k) \<and> waiters (the_lock ?L k) = []"
      by (auto simp: i3 split: if_splits)
  next
    show "\<forall>k. distinct (waiters (the_lock ?L k))
        \<and> (\<forall>w' \<in> set (waiters (the_lock ?L k)). w' < length ?C \<and> ?C ! w' = WaitingLock k)"
    proof (intro allI conjI ballI)
      fix k show "distinct (waiters (the_lock ?L k))" using ws by (simp add: i4(1))
    next
      fix k w' assume w': "w' \<in> set (waiters (the_lock ?L k))"
      have w'': "w' \<in> set (waiters (the_lock ?locks k))" and ne_w: "w' \<noteq> w"
      proof -
        show "w' \<in> set (waiters (the_lock ?locks k))"
          using w' by (cases "k = ?key") (simp_all add: wait)
        then have "?cs ! w' = WaitingLock k" by (rule i4(3))
        with w' w_wait ws show "w' \<noteq> w" by (cases "k = ?key") auto
      qed
      from i4(3) [OF w''] own have "w' \<noteq> c" by auto
      with ne_w i4(2) [OF w''] i4(3) [OF w'']
      show "w' < length ?C" "?C ! w' = WaitingLock k" by simp_all
    qed
  next
    show "\<forall>c' < length ?C. (\<forall>k t'. ?C ! c' \<noteq> AwaitingActive k t')
        \<and> (\<forall>k t'. ?C ! c' = AwaitingOwn k t' \<longrightarrow> ?A k = Some t' \<and> awaiters (?T ! t') = [c'])"
    proof (intro allI impI)
      fix c' assume c': "c' < length ?C"
      then have c'': "c' < length ?cs" by simp
      consider "c' = w" | "c' = c" | "c' \<noteq> w" "c' \<noteq> c" by blast
      then show "(\<forall>k t'. ?C ! c' \<noteq> AwaitingActive k t')
        \<and> (\<forall>k t'. ?C ! c' = AwaitingOwn k t' \<longrightarrow> ?A k = Some t' \<and> awaiters (?T ! t') = [c'])"
      proof cases
        case 1
        with w_len show ?thesis by (simp add: nth_append)
      next
        case 2
        with c w_c show ?thesis by simp
      next
        case 3
        show ?thesis
        proof (intro conjI allI impI)
          fix k t' show "?C ! c' \<noteq> AwaitingActive k t'"
            using 3 i5(1) [OF c''] by simp
        next
          fix k t' assume "?C ! c' = AwaitingOwn k t'"
          with 3 have o: "?cs ! c' = AwaitingOwn k t'" by simp
          from i5(2) [OF c'' o] i5(3) [OF c'' o]
          have a: "?act k = Some t'" "awaiters (?ts ! t') = [c']" by simp_all
          have k: "k \<noteq> ?key"
          proof
            assume "k = ?key"
            with a(1) act have "t' = t" by simp
            with a(2) aw 3 show False by simp
          qed
          from other_task [OF a(1) k] a k
          show "?A k = Some t'" "awaiters (?T ! t') = [c']" by (simp_all add: nth_append)
        qed
      qed
    qed
  next
    have "length (filter holds_or_done (?cs[c := Returned v])) = length (filter holds_or_done ?cs)"
      using c own by (intro count_update_same) simp_all
    moreover have "length (filter holds_or_done ?C)
        = Suc (length (filter holds_or_done (?cs[c := Returned v])))"
      using w_len w_wait w_c by (intro count_update_new) simp_all
    ultimately show "length ?T = length (filter holds_or_done ?C)" using i6 by simp
  qed
qed

lemma inv_finish:
  assumes inv: "coalescer_inv st"
  shows "coalescer_inv (step st (Finish t v))"
proof (cases "t < length (tasks st) \<and> task_result (tasks st ! t) = None")
  case False
  with inv show ?thesis by auto
next
  case True
  then have t: "t < length (tasks st)" and run: "task_result (tasks st ! t) = None" by simp_all
  from coalescer_invD(6) [OF inv t run]
  obtain c where c: "c < length (callers st)" "awaiters (tasks st ! t) = [c]"
    "callers st ! c = AwaitingOwn (task_key (tasks st ! t)) t" by blast
  show ?thesis
  proof (cases "waiters (the_lock (request_locks st) (task_key (tasks st ! t)))")
    case Nil
    from inv_finish_last [OF inv t run c(2) c(1) c(3) Nil] show ?thesis .
  next
    case (Cons w ws)
    from inv_finish_next [OF inv t run c(2) c(1) c(3) Cons] show ?thesis .
  qed
qed

lemma inv_step: "coalescer_inv st \<Longrightarrow> coalescer_inv (step st ev)"
  by (cases ev) (simp_all only: inv_call inv_finish)

lemma inv_foldl: "coalescer_inv st \<Longrightarrow> coalescer_inv (foldl step st evs)"
  by (induction evs arbitrary: st) (simp_all add: inv_step del: step.simps)

lemma inv_run: "coalescer_inv (run evs)"
  unfolding run_def by (rule inv_foldl [OF inv_init])


lemma filter_at_most_one:
  "(\<And>i j. i < length xs \<Longrightarrow> j < length xs \<Longrightarrow> P (xs ! i) \<Longrightarrow> P (xs ! j) \<Longrightarrow> i = j)
   \<Longrightarrow> length (filter P xs) \<le> 1"
proof (induction xs)
  case Nil
  then show ?case by simp
next
  case (Cons x xs)
  show ?case
  proof (cases "P x")
    case True
    have "\<not> P y" if "y \<in> set xs" for y
    proof
      assume "P y"
      from that obtain j where j: "j < length xs" "xs ! j = y" by (auto simp: in_set_conv_nth)
      with Cons.prems [of 0 "Suc j"] True \<open>P y\<close> show False by simp
    qed
    then have "filter P xs = []" by (simp add: filter_empty_conv)
    with True show ?thesis by simp
  next
    case False
    have "length (filter P xs) \<le> 1"
    proof (rule Cons.IH)
      fix i j assume "i < length xs" "j < length xs" "P (xs ! i)" "P (xs ! j)"
      with Cons.prems [of "Suc i" "Suc j"] show "i = j" by simp
    qed
    with False show ?thesis by simp
  qed
qed

text \<open>
  In every state that \<open>debounced_request\<close> can reach, at most one invocation of
  \<open>request_func\<close> per key is under way.
\<close>

lemma debounced_request_at_most_one_underway: "underway (run evs) key \<le> 1"
  unfolding underway_def
proof (rule filter_at_most_one)
  fix i j
  assume i: "i < length (tasks (run evs))" and j: "j < length (tasks (run evs))"
    and pi: "task_key (tasks (run evs) ! i) = key \<and> task_result (tasks (run evs) ! i) = None"
    and pj: "task_key (tasks (run evs) ! j) = key \<and> task_result (tasks (run evs) ! j) = None"
  from coalescer_invD(5) [OF inv_run i] pi have "active_requests (run evs) key = Some i" by auto
  moreover from coalescer_invD(5) [OF inv_run j] pj
  have "active_requests (run evs) key = Some j" by auto
  ultimately show "i = j" by simp
qed

text \<open>
  In no reachable state is a caller suspended in \<open>return await _active_requests[key]\<close>:
  while a request is registered its creator holds the lock, so the branch that would
  share the active request is never taken.
\<close>

lemma debounced_request_never_awaits_active:
  "c < length (callers (run evs)) \<Longrightarrow> callers (run evs) ! c \<noteq> AwaitingActive key t"
  by (rule coalescer_invD(12) [OF inv_run])

text \<open>
  Hence every caller that gets past the lock invokes \<open>request_func\<close> itself, and once
  all callers have returned there have been as many invocations as callers.
\<close>

lemma debounced_request_invocation_per_caller:
  "invocations (run evs) = length (filter holds_or_done (callers (run evs)))"
  unfolding invocations_def by (rule coalescer_invD(15) [OF inv_run])

lemma debounced_request_all_returned:
  assumes "\<forall>c \<in> set (callers (run evs)). \<exists>v. c = Returned v"
  shows "invocations (run evs) = length (callers (run evs))"
proof -
  from assms have "filter holds_or_done (callers (run evs)) = callers (run evs)"
    by (auto simp: filter_id_conv)
  with debounced_request_invocation_per_caller [of evs] show ?thesis by simp
qed

text \<open>
  A caller that no other caller overlaps runs \<open>request_func\<close> once and returns its
  result; this is the case the model of the endpoint relies on.
\<close>

lemma single_caller:
  "invocations (run [Call ''k'', Finish 0 v]) = 1
   \<and> callers (run [Call ''k'', Finish 0 v]) = [Returned v]"
  by (simp add: coalescer_defs)

text \<open>
  Claim C1, at two callers. Two callers enter \<open>debounced_request\<close> for the same key
  while no request is active. The first creates a task and awaits it inside
  \<open>async with _request_locks[key]\<close>, so the second is suspended on the lock, not on the
  task. When the first task finishes with 1, the first caller removes the registration
  and releases the lock; the second caller then finds no active request and invokes
  \<open>request_func\<close> again, and returns that second result, 2. So there are two
  invocations, not one, and the two callers receive different results; what does hold is
  that never more than one invocation for the key is under way.
\<close>

theorem debounced_request_two_callers_two_invocations:
  "callers (run [Call ''k'', Call ''k'']) = [AwaitingOwn ''k'' 0, WaitingLock ''k'']
   \<and> invocations (run [Call ''k'', Call ''k'']) = 1
   \<and> callers (run [Call ''k'', Call ''k'', Finish 0 (PInt 1)])
       = [Returned (PInt 1), AwaitingOwn ''k'' 1]
   \<and> invocations (run [Call ''k'', Call ''k'', Finish 0 (PInt 1)]) = 2
   \<and> callers (run [Call ''k'', Call ''k'', Finish 0 (PInt 1), Finish 1 (PInt 2)])
       = [Returned (PInt 1), Returned (PInt 2)]
   \<and> invocations (run [Call ''k'', Call ''k'', Finish 0 (PInt 1), Finish 1 (PInt 2)]) = 2
   \<and> underway (run [Call ''k'', Call ''k'']) ''k'' = 1
   \<and> underway (run [Call ''k'', Call ''k'', Finish 0 (PInt 1)]) ''k'' = 1"
  by (simp add: coalescer_defs)

end
